theory Spec2Isabelle
  imports Main "HOL-Library.AList"
begin

section \<open>Strings\<close>

text \<open>
  The playlist transformer of \<^verbatim>\<open>src/playlist-transformer.js\<close> works on JavaScript
  strings. Here a string is a \<^typ>\<open>string\<close>, a list of 8-bit characters read as the
  code units \<open>0..255\<close>; the operations below are the methods of \<^verbatim>\<open>String.prototype\<close>
  the source calls, on that range. What the source writes to the console is left out,
  and so is the network: the documents a run downloads and the content of the remapping
  file are arguments.
\<close>

definition isSpace :: "char \<Rightarrow> bool" where
  \<comment> \<open>What \<^verbatim>\<open>trim()\<close> strips: TAB, LF, VT, FF, CR, SP and NBSP.\<close>
  "isSpace c = ((of_char c :: nat) \<in> {9, 10, 11, 12, 13, 32, 160})"

definition trim :: "string \<Rightarrow> string" where
  "trim s = rev (dropWhile isSpace (rev (dropWhile isSpace s)))"

definition isUpperChar :: "char \<Rightarrow> bool" where
  \<comment> \<open>The code units below 256 that \<^verbatim>\<open>toLowerCase()\<close> changes: A-Z, and the
     capital letters of Latin-1 (0xC0-0xDE but the multiplication sign 0xD7).\<close>
  "isUpperChar c = (let n = (of_char c :: nat) in
     (65 \<le> n \<and> n \<le> 90) \<or> (192 \<le> n \<and> n \<le> 222 \<and> n \<noteq> 215))"

definition toLowerChar :: "char \<Rightarrow> char" where
  "toLowerChar c = (if isUpperChar c then char_of ((of_char c :: nat) + 32) else c)"

definition toLowerCase :: "string \<Rightarrow> string" where
  "toLowerCase s = map toLowerChar s"

definition startsWith :: "string \<Rightarrow> string \<Rightarrow> bool" where
  "startsWith s p = (take (length p) s = p)"

fun str_includes :: "string \<Rightarrow> string \<Rightarrow> bool" where
  "str_includes [] p = (p = [])"
| "str_includes (c # cs) p = (startsWith (c # cs) p \<or> str_includes cs p)"

fun js_split :: "char \<Rightarrow> string \<Rightarrow> string list" where
  \<comment> \<open>\<^verbatim>\<open>s.split(sep)\<close> for a separator of one character: never an empty array.\<close>
  "js_split sep [] = [[]]"
| "js_split sep (c # cs) =
     (if c = sep then [] # js_split sep cs
      else (case js_split sep cs of w # ws \<Rightarrow> (c # w) # ws | [] \<Rightarrow> [[c]]))"

fun replaceFirst :: "string \<Rightarrow> string \<Rightarrow> string \<Rightarrow> string" where
  \<comment> \<open>\<^verbatim>\<open>s.replace(pat, rep)\<close> with a string pattern: the first occurrence only.\<close>
  "replaceFirst pat rep [] = (if pat = [] then rep else [])"
| "replaceFirst pat rep (c # cs) =
     (if startsWith (c # cs) pat then rep @ drop (length pat) (c # cs)
      else c # replaceFirst pat rep cs)"

fun join :: "string \<Rightarrow> string list \<Rightarrow> string" where
  "join sep [] = []"
| "join sep [x] = x"
| "join sep (x # y # ys) = x @ sep @ join sep (y # ys)"

definition orElse :: "string option \<Rightarrow> string \<Rightarrow> string" where
  \<comment> \<open>JavaScript's \<^verbatim>\<open>a || b\<close> on a string that may be undefined: the empty string is falsy.\<close>
  "orElse a b = (case a of None \<Rightarrow> b | Some s \<Rightarrow> if s = [] then b else s)"

subsection \<open>The regular expressions of the source\<close>

definition dquote :: char where
  "dquote = CHR 0x22"

fun regexQuoted :: "string \<Rightarrow> string \<Rightarrow> string option" where
  \<comment> \<open>\<^verbatim>\<open>s.match(/LIT([^"]+)"/)\<close>, group 1 of the leftmost match: \<open>lit\<close> is the literal
     text up to and with the opening quote (\<^verbatim>\<open>url-tvg="\<close>, \<^verbatim>\<open>group-title="\<close>). At a start
     position the greedy \<^verbatim>\<open>[^"]+\<close> takes every character up to the next quote; it must
     take one at least and the quote must be there.\<close>
  "regexQuoted lit [] = None"
| "regexQuoted lit (c # cs) =
     (let r = drop (length lit) (c # cs);
          v = takeWhile (\<lambda>x. x \<noteq> dquote) r
      in if startsWith (c # cs) lit \<and> v \<noteq> [] \<and> dropWhile (\<lambda>x. x \<noteq> dquote) r \<noteq> []
         then Some v else regexQuoted lit cs)"

definition isKeyChar :: "char \<Rightarrow> bool" where
  \<comment> \<open>The class \<^verbatim>\<open>[a-zA-Z-]\<close>.\<close>
  "isKeyChar c = (let n = (of_char c :: nat) in
     (65 \<le> n \<and> n \<le> 90) \<or> (97 \<le> n \<and> n \<le> 122) \<or> n = 45)"

definition matchAttrAt :: "string \<Rightarrow> (string \<times> string) option" where
  \<comment> \<open>\<^verbatim>\<open>/([a-zA-Z-]+)="([^"]+)"/\<close> anchored at the head of \<open>s\<close>: the matched text and what
     follows it. Both classes exclude the character that must follow them, so the
     greedy runs are the only candidates.\<close>
  "matchAttrAt s =
     (let key = takeWhile isKeyChar s;
          r = drop (length key + 2) s;
          v = takeWhile (\<lambda>x. x \<noteq> dquote) r;
          rest = dropWhile (\<lambda>x. x \<noteq> dquote) r
      in if key \<noteq> [] \<and> startsWith (dropWhile isKeyChar s) [CHR ''='', dquote] \<and> v \<noteq> [] \<and> rest \<noteq> []
         then Some (key @ [CHR ''='', dquote] @ v @ [dquote], tl rest) else None)"

lemma matchAttrAt_shorter: "matchAttrAt s = Some (m, rest) \<Longrightarrow> length rest < length s"
proof -
  assume a: "matchAttrAt s = Some (m, rest)"
  let ?r = "drop (length (takeWhile isKeyChar s) + 2) s"
  let ?d = "dropWhile (\<lambda>x. x \<noteq> dquote) ?r"
  from a have k: "takeWhile isKeyChar s \<noteq> []" and d: "?d \<noteq> []" and r: "rest = tl ?d"
    by (auto simp: matchAttrAt_def Let_def split: if_splits)
  have "length rest < length ?d" using d r by (cases ?d) auto
  also have "\<dots> \<le> length ?r" by (rule length_dropWhile_le)
  also have "\<dots> \<le> length s" by simp
  finally show ?thesis .
qed

function tvgMatches :: "string \<Rightarrow> string list" where
  \<comment> \<open>\<^verbatim>\<open>metadata.match(/([a-zA-Z-]+)="([^"]+)"/g) || []\<close>: the matched texts, left to
     right, each search starting where the last match ended.\<close>
  "tvgMatches [] = []"
| "tvgMatches (c # cs) =
     (case matchAttrAt (c # cs) of
        Some (m, rest) \<Rightarrow> m # tvgMatches rest
      | None \<Rightarrow> tvgMatches cs)"
  by pat_completeness auto
termination
  by (relation "measure length") (auto dest: matchAttrAt_shorter)

section \<open>The remapping rules\<close>

type_synonym dict = "(string \<times> string) list"

text \<open>
  A JavaScript object with string keys, and a \<^verbatim>\<open>Map\<close>, is an association list in
  insertion order; \<^const>\<open>AList.update\<close> is the assignment \<^verbatim>\<open>o[k] = v\<close> (and
  \<^verbatim>\<open>m.set(k, v)\<close>): in place when the key is there, at the end otherwise.
\<close>

fun ruleLine :: "dict \<times> nat \<times> nat \<Rightarrow> string \<Rightarrow> dict \<times> nat \<times> nat" where
  \<comment> \<open>The body of \<^verbatim>\<open>forEach\<close> in \<^verbatim>\<open>loadRemappingRules\<close> (lines 67-80), on the rules and the
     two counters \<^verbatim>\<open>ruleCount\<close> and \<^verbatim>\<open>skippedCount\<close>. The destructuring takes the first two
     pieces of \<^verbatim>\<open>line.split('=')\<close>; a missing second piece is undefined, hence falsy.\<close>
  "ruleLine (rules, ruleCount, skippedCount) l =
     (let line = trim l in
      if line = [] \<or> startsWith line ''#'' then (rules, ruleCount, skippedCount)
      else (case map (\<lambda>s. toLowerCase (trim s)) (js_split CHR ''='' line) of
              m3uId # epgId # _ \<Rightarrow>
                if m3uId = [] \<or> epgId = [] then (rules, ruleCount, Suc skippedCount)
                else (AList.update m3uId epgId rules, Suc ruleCount, skippedCount)
            | _ \<Rightarrow> (rules, ruleCount, Suc skippedCount)))"

section \<open>The data\<close>

record rawChannel =
  \<comment> \<open>\<^verbatim>\<open>currentChannel\<close> of \<^verbatim>\<open>parseM3U\<close>; \<open>ch_url\<close> is assigned before it is read.\<close>
  ch_name :: string
  ch_group :: string
  ch_tvg :: dict
  ch_headers :: dict
  ch_url :: string

record streamUrl =
  s_url :: string
  s_name :: string

record streamInfo =
  urls :: "streamUrl list"
  headers :: dict
  tvg :: dict

record behaviorHints =
  defaultVideoId :: string
  isLive :: bool

record channel =
  \<comment> \<open>\<^verbatim>\<open>transformedChannel\<close>; a field the source may leave undefined is an option.\<close>
  id' :: string
  type' :: string
  name :: string
  genre :: "string list"
  posterShape :: string
  poster :: "string option"
  background :: "string option"
  logo :: "string option"
  description :: string
  runtime :: string
  behaviorHints :: behaviorHints
  streamInfo :: streamInfo

record transformer =
  \<comment> \<open>An instance of \<^verbatim>\<open>PlaylistTransformer\<close>. The channel objects live in \<open>heap\<close>, and
     \<^verbatim>\<open>this.stremioData.channels\<close> is an array of their addresses: the source pushes one
     object more than once and changes it through \<^verbatim>\<open>find\<close>. An object is never freed,
     as the lists returned earlier still refer to it. (\<^verbatim>\<open>processedIds\<close> is only ever
     cleared and is left out.)\<close>
  stremio_genres :: "string list"
  stremio_channels :: "nat list"
  heap :: "channel list"
  remappingRules :: dict

record catalog =
  \<comment> \<open>What \<^verbatim>\<open>parseM3U\<close> and \<^verbatim>\<open>loadAndTransform\<close> return.\<close>
  genres :: "string list"
  channels :: "channel list"
  epgUrl :: "string option"

definition newTransformer :: transformer where
  \<comment> \<open>The constructor.\<close>
  "newTransformer = \<lparr>stremio_genres = [], stremio_channels = [], heap = [], remappingRules = []\<rparr>"

definition setAdd :: "string list \<Rightarrow> string \<Rightarrow> string list" where
  \<comment> \<open>\<^verbatim>\<open>Set.prototype.add\<close> on a set kept in insertion order.\<close>
  "setAdd xs x = (if x \<in> set xs then xs else xs @ [x])"

section \<open>Loading the rules\<close>

definition loadRemappingRules :: "string option \<Rightarrow> transformer \<Rightarrow> transformer \<times> nat \<times> nat" where
  \<comment> \<open>Lines 57-95. \<open>remap\<close> is what \<^verbatim>\<open>fs.promises.readFile\<close> gives: \<open>None\<close> when it throws
     (no such file, or any other error: the \<^verbatim>\<open>catch\<close> only logs). The rules are added to
     \<^verbatim>\<open>this.remappingRules\<close> as it is. The result carries the two counters the source
     logs.\<close>
  "loadRemappingRules remap t =
     (case remap of
        None \<Rightarrow> (t, 0, 0)
      | Some content \<Rightarrow>
          (case foldl ruleLine (remappingRules t, 0, 0) (js_split CHR 0x0A content) of
             (rules, ruleCount, skippedCount) \<Rightarrow>
               (t\<lparr>remappingRules := rules\<rparr>, ruleCount, skippedCount)))"

section \<open>One entry\<close>

fun parseVLCOpts :: "string list \<Rightarrow> dict \<Rightarrow> dict \<times> string list" where
  \<comment> \<open>The loop of \<^verbatim>\<open>parseVLCOpts(lines, currentIndex)\<close> (lines 97-110) on
     \<^verbatim>\<open>lines.slice(currentIndex)\<close> and the headers so far; it returns the headers and
     \<^verbatim>\<open>lines.slice(nextIndex)\<close>. The lines are tested as they are, not trimmed.\<close>
  "parseVLCOpts [] h = (h, [])"
| "parseVLCOpts (l # ls) h =
     (if startsWith l ''#EXTVLCOPT:'' then
        (let opt = trim (drop 11 l)
         in parseVLCOpts ls
              (if startsWith opt ''http-user-agent='' then AList.update ''User-Agent'' (drop 16 opt) h
               else h))
      else (h, l # ls))"

definition tvgAttr :: "dict \<Rightarrow> string \<Rightarrow> dict" where
  \<comment> \<open>The body of \<^verbatim>\<open>tvgMatches.forEach\<close> (lines 209-213): the matched text is split at
     every \<^verbatim>\<open>=\<close> and only the first two pieces are used. A match always has two.\<close>
  "tvgAttr tvgData m =
     (case js_split CHR ''='' m of
        key # value # _ \<Rightarrow>
          AList.update (replaceFirst ''tvg-'' [] key) (filter (\<lambda>c. c \<noteq> dquote) value) tvgData
      | _ \<Rightarrow> tvgData)"

definition parseExtinf :: "string \<Rightarrow> dict \<Rightarrow> rawChannel" where
  \<comment> \<open>The \<^verbatim>\<open>#EXTINF:\<close> branch of \<^verbatim>\<open>parseM3U\<close> (lines 205-229) on the trimmed line and the
     headers of the option lines that follow it. \<^verbatim>\<open>url\<close> is not set yet.\<close>
  "parseExtinf line hs =
     (let metadata = trim (drop 8 line);
          tvgData = foldl tvgAttr [] (tvgMatches metadata);
          group = (case regexQuoted ''group-title=\"'' metadata of
                     Some g \<Rightarrow> g | None \<Rightarrow> ''Altri canali'');
          name = trim (last (js_split CHR '','' metadata))
      in \<lparr>ch_name = name, ch_group = group, ch_tvg = tvgData, ch_headers = hs, ch_url = []\<rparr>)"

definition channelIdOf :: "dict \<Rightarrow> rawChannel \<Rightarrow> string" where
  \<comment> \<open>\<^verbatim>\<open>channelId\<close> of \<^verbatim>\<open>transformChannelToStremio\<close> once the rules are applied (lines
     113-130; \<^verbatim>\<open>isConflict\<close> only decides a warning).\<close>
  "channelIdOf rules ch =
     (let channelId = toLowerCase (orElse (map_of (ch_tvg ch) ''id'') (trim (ch_name ch)))
      in case map_of rules channelId of
           Some remapped \<Rightarrow> toLowerCase remapped
         | None \<Rightarrow> channelId)"

definition hasTvgId :: "string \<Rightarrow> channel \<Rightarrow> bool" where
  \<comment> \<open>\<^verbatim>\<open>ch.streamInfo.tvg.id.toLowerCase() === channelId\<close> (line 133). Every channel the
     transformer lists has the key \<^verbatim>\<open>id\<close> (lemmas \<open>docInv_merged\<close>, \<open>tvgId_merged\<close>), so the
     second case, where the source would throw, is never met.\<close>
  "hasTvgId channelId c =
     (case map_of (tvg (streamInfo c)) ''id'' of
        Some i \<Rightarrow> toLowerCase i = channelId
      | None \<Rightarrow> False)"

definition groupOf :: "rawChannel \<Rightarrow> string" where
  \<comment> \<open>\<^verbatim>\<open>channel.group || "Altri canali"\<close>.\<close>
  "groupOf ch = orElse (Some (ch_group ch)) ''Altri canali''"

definition newChannel :: "string \<Rightarrow> rawChannel \<Rightarrow> channel" where
  \<comment> \<open>\<^verbatim>\<open>transformedChannel\<close> (lines 147-176).\<close>
  "newChannel channelId ch =
     (let i = ''tv|'' @ channelId;
          n = orElse (map_of (ch_tvg ch) ''name'') (ch_name ch);
          g = groupOf ch
      in \<lparr>id' = i, type' = ''tv'', name = n, genre = [g], posterShape = ''square'',
          poster = map_of (ch_tvg ch) ''logo'', background = map_of (ch_tvg ch) ''logo'',
          logo = map_of (ch_tvg ch) ''logo'', description = ''Canale: '' @ n, runtime = ''LIVE'',
          behaviorHints = \<lparr>defaultVideoId = i, isLive = True\<rparr>,
          streamInfo = \<lparr>urls = [\<lparr>s_url = ch_url ch, s_name = ch_name ch\<rparr>],
                        headers = ch_headers ch,
                        tvg = AList.update ''name'' n (AList.update ''id'' channelId (ch_tvg ch))\<rparr>\<rparr>)"

definition addStream :: "rawChannel \<Rightarrow> channel \<Rightarrow> channel" where
  \<comment> \<open>\<^verbatim>\<open>existingChannel.streamInfo.urls.push({url, name})\<close> (lines 137-140).\<close>
  "addStream ch c =
     c\<lparr>streamInfo := (streamInfo c)\<lparr>urls := urls (streamInfo c) @ [\<lparr>s_url = ch_url ch, s_name = ch_name ch\<rparr>]\<rparr>\<rparr>"

definition transformChannelToStremio :: "rawChannel \<Rightarrow> transformer \<Rightarrow> nat option \<times> transformer" where
  \<comment> \<open>Lines 112-180. The result is the address of the new channel, or \<open>None\<close> for \<^verbatim>\<open>null\<close>.
     \<^verbatim>\<open>find\<close> gives the first listed object that matches, and the push changes that object.\<close>
  "transformChannelToStremio ch t =
     (let channelId = channelIdOf (remappingRules t) ch
      in case find (\<lambda>a. hasTvgId channelId (heap t ! a)) (stremio_channels t) of
           Some a \<Rightarrow> (None, t\<lparr>heap := (heap t)[a := addStream ch (heap t ! a)]\<rparr>)
         | None \<Rightarrow>
             (let c = newChannel channelId ch; a = length (heap t)
              in (Some a,
                  t\<lparr>stremio_genres := setAdd (stremio_genres t) (groupOf ch),
                    stremio_channels := stremio_channels t @ [a],
                    heap := heap t @ [c]\<rparr>)))"

definition emit :: "rawChannel \<Rightarrow> transformer \<Rightarrow> transformer" where
  \<comment> \<open>What \<^verbatim>\<open>parseM3U\<close> does with a completed entry (lines 233-236): the channel
     \<^verbatim>\<open>transformChannelToStremio\<close> returns, already in the list, is pushed once more.\<close>
  "emit ch t =
     (case transformChannelToStremio ch t of
        (Some a, t') \<Rightarrow> t'\<lparr>stremio_channels := stremio_channels t' @ [a]\<rparr>
      | (None, t') \<Rightarrow> t')"

section \<open>One document\<close>

lemma parseVLCOpts_length: "length (snd (parseVLCOpts ls h)) \<le> length ls"
  by (induction ls arbitrary: h) (auto simp: Let_def le_SucI)

function parseLoop :: "string list \<Rightarrow> rawChannel option \<Rightarrow> transformer \<Rightarrow> transformer" where
  \<comment> \<open>The \<^verbatim>\<open>for\<close> loop of \<^verbatim>\<open>parseM3U\<close> (lines 201-240) on \<^verbatim>\<open>lines.slice(i)\<close>,
     \<^verbatim>\<open>currentChannel\<close> and the transformer. After a metadata line the loop goes on at
     \<^verbatim>\<open>nextIndex\<close>, behind the option lines.\<close>
  "parseLoop [] cur t = t"
| "parseLoop (l # ls) cur t =
     (let line = trim l in
      if startsWith line ''#EXTINF:'' then
        parseLoop (snd (parseVLCOpts ls [])) (Some (parseExtinf line (fst (parseVLCOpts ls [])))) t
      else if startsWith line ''http'' then
        (case cur of
           Some ch \<Rightarrow> parseLoop ls None (emit (ch\<lparr>ch_url := line\<rparr>) t)
         | None \<Rightarrow> parseLoop ls None t)
      else parseLoop ls cur t)"
  by pat_completeness auto
termination
  by (relation "measure (\<lambda>(ls, cur, t). length ls)") (auto simp: parseVLCOpts_length less_Suc_eq_le)

definition extractEpgUrl :: "string list \<Rightarrow> string option" where
  \<comment> \<open>\<^verbatim>\<open>epgUrl\<close> of \<^verbatim>\<open>parseM3U\<close> (lines 192-199), from the first line, which \<^verbatim>\<open>split\<close> always
     gives.\<close>
  "extractEpgUrl lines =
     (case lines of
        [] \<Rightarrow> None
      | l0 # _ \<Rightarrow> if str_includes l0 ''url-tvg='' then regexQuoted ''url-tvg=\"'' l0 else None)"

definition parseM3U :: "string \<Rightarrow> transformer \<Rightarrow> catalog \<times> transformer" where
  \<comment> \<open>Lines 182-253. The genres and the channel list start anew; the rules stay. The list
     returned holds the objects as they are at the end, and nothing changes them later:
     the next document has a channel list of its own.\<close>
  "parseM3U content t =
     (let lines = js_split CHR 0x0A content;
          t0 = t\<lparr>stremio_genres := [''Altri canali''], stremio_channels := []\<rparr>;
          t1 = parseLoop lines None t0
      in (\<lparr>genres = stremio_genres t1,
           channels = map (\<lambda>a. heap t1 ! a) (stremio_channels t1),
           epgUrl = extractEpgUrl lines\<rparr>, t1))"

section \<open>A run\<close>

definition addChannel :: "channel list \<Rightarrow> channel \<Rightarrow> channel list" where
  \<comment> \<open>The body of \<^verbatim>\<open>result.channels.forEach\<close> in \<^verbatim>\<open>loadAndTransform\<close> (lines 269-273).\<close>
  "addChannel allChannels c =
     (if list_ex (\<lambda>e. id' e = id' c) allChannels then allChannels else allChannels @ [c])"

definition addEpgUrl :: "string list \<Rightarrow> string option \<Rightarrow> string list" where
  \<comment> \<open>Lines 276-279: \<^verbatim>\<open>null\<close> and the empty string are falsy.\<close>
  "addEpgUrl allEpgUrls u =
     (case u of
        None \<Rightarrow> allEpgUrls
      | Some e \<Rightarrow> if e \<noteq> [] \<and> e \<notin> set allEpgUrls then allEpgUrls @ [e] else allEpgUrls)"

fun playlistLoop ::
  "string list \<Rightarrow> channel list \<times> string list \<times> string list \<Rightarrow> transformer
     \<Rightarrow> (channel list \<times> string list \<times> string list) \<times> transformer" where
  \<comment> \<open>The \<^verbatim>\<open>for\<close> loop of \<^verbatim>\<open>loadAndTransform\<close> over the documents \<^verbatim>\<open>axios.get\<close> returns,
     on \<^verbatim>\<open>allChannels\<close>, \<^verbatim>\<open>allGenres\<close> and \<^verbatim>\<open>allEpgUrls\<close>.\<close>
  "playlistLoop [] acc t = (acc, t)"
| "playlistLoop (doc # docs) (allChannels, allGenres, allEpgUrls) t =
     (case parseM3U doc t of
        (result, t') \<Rightarrow>
          playlistLoop docs
            (foldl addChannel allChannels (channels result),
             foldl setAdd allGenres (genres result),
             addEpgUrl allEpgUrls (epgUrl result)) t')"

definition loadAndTransform :: "string option \<Rightarrow> string list \<Rightarrow> transformer \<Rightarrow> catalog \<times> transformer" where
  \<comment> \<open>Lines 255-297. \<open>remap\<close> is the content of the remapping file (\<open>None\<close>: unreadable)
     and \<open>docs\<close> the playlists downloaded, in the order of \<^verbatim>\<open>playlistUrls\<close>. A download that
     fails aborts the run and has no result; the guide manager the joined URL is handed
     to is outside this file.\<close>
  "loadAndTransform remap docs t =
     (case playlistLoop docs ([], [], []) (fst (loadRemappingRules remap t)) of
        ((allChannels, allGenres, allEpgUrls), t') \<Rightarrow>
          (\<lparr>genres = allGenres, channels = allChannels,
            epgUrl = (if allEpgUrls = [] then None else Some (join '','' allEpgUrls))\<rparr>, t'))"

section \<open>Notions the properties are stated with\<close>

text \<open>
  The definitions of this section are not code of the transformer: they name what the
  statements below speak of, and each is tied to the code by a lemma.
\<close>

definition guideUrlOf :: "string \<Rightarrow> string option" where
  \<comment> \<open>The guide URL one document yields: \<^verbatim>\<open>epgUrl\<close> of \<^verbatim>\<open>parseM3U\<close> on its lines.\<close>
  "guideUrlOf doc = extractEpgUrl (js_split CHR 0x0A doc)"

datatype lineKind = Ignored | Malformed | Rule string string

definition specRuleLine :: "string \<Rightarrow> lineKind" where
  \<comment> \<open>A line of the remapping file as the specification reads it: blank lines and comments
     are ignored; the key is the text before the first \<^verbatim>\<open>=\<close> and the value the text
     between the first and the second, both trimmed and lower-cased; a line with no
     \<^verbatim>\<open>=\<close>, an empty key or an empty value is malformed.\<close>
  "specRuleLine l =
     (let line = trim l;
          key = trim (takeWhile (\<lambda>c. c \<noteq> CHR ''='') line);
          val = trim (takeWhile (\<lambda>c. c \<noteq> CHR ''='') (drop 1 (dropWhile (\<lambda>c. c \<noteq> CHR ''='') line)))
      in if line = [] \<or> startsWith line ''#'' then Ignored
         else if key = [] \<or> val = [] \<or> CHR ''='' \<notin> set line then Malformed
         else Rule (toLowerCase key) (toLowerCase val))"

definition specRules :: "string list \<Rightarrow> (string \<times> string) list" where
  \<comment> \<open>The rules of the well-formed lines, in file order.\<close>
  "specRules ls = concat (map (\<lambda>l. case specRuleLine l of Rule k v \<Rightarrow> [(k, v)] | _ \<Rightarrow> []) ls)"

definition tvgId :: "channel \<Rightarrow> string option" where
  \<comment> \<open>\<^verbatim>\<open>ch.streamInfo.tvg.id\<close>: the identity of a channel, without its \<^verbatim>\<open>tv|\<close> prefix.\<close>
  "tvgId c = map_of (tvg (streamInfo c)) ''id''"

definition streamOf :: "rawChannel \<Rightarrow> streamUrl" where
  \<comment> \<open>The stream \<^verbatim>\<open>{url, name}\<close> an entry contributes.\<close>
  "streamOf ch = \<lparr>s_url = ch_url ch, s_name = ch_name ch\<rparr>"

definition merged :: "string \<Rightarrow> rawChannel list \<Rightarrow> channel" where
  \<comment> \<open>The channel of identity \<open>k\<close> that the entries \<open>es\<close> (not empty) give: built from the
     first of them, with the streams of all in order.\<close>
  "merged k es =
     (newChannel k (hd es))\<lparr>streamInfo := (streamInfo (newChannel k (hd es)))\<lparr>urls := map streamOf es\<rparr>\<rparr>"

function segment :: "string list \<Rightarrow> rawChannel option \<Rightarrow> rawChannel list" where
  \<comment> \<open>The entries \<^const>\<open>parseLoop\<close> completes, in order: the same walk over the lines, with the
     entry listed where the loop hands it to \<^const>\<open>emit\<close> (lemma \<open>parseLoop_segment\<close>).\<close>
  "segment [] cur = []"
| "segment (l # ls) cur =
     (let line = trim l in
      if startsWith line ''#EXTINF:'' then
        segment (snd (parseVLCOpts ls [])) (Some (parseExtinf line (fst (parseVLCOpts ls []))))
      else if startsWith line ''http'' then
        (case cur of
           Some ch \<Rightarrow> ch\<lparr>ch_url := line\<rparr> # segment ls None
         | None \<Rightarrow> segment ls None)
      else segment ls cur)"
  by pat_completeness auto
termination
  by (relation "measure (\<lambda>(ls, cur). length ls)") (auto simp: parseVLCOpts_length less_Suc_eq_le)

definition entries :: "string \<Rightarrow> rawChannel list" where
  \<comment> \<open>The completed entries of a document.\<close>
  "entries doc = segment (js_split CHR 0x0A doc) None"

definition docInv :: "dict \<Rightarrow> rawChannel list \<Rightarrow> transformer \<Rightarrow> bool" where
  \<comment> \<open>What holds of the transformer when \<^verbatim>\<open>parseM3U\<close> has emitted the entries \<open>es\<close> under the
     rules \<open>R\<close>: every listed address is allocated and holds the merged channel of its
     identity, two listed addresses of one identity are the same, and every entry has
     its channel.\<close>
  "docInv R es t \<longleftrightarrow>
     remappingRules t = R
     \<and> (\<forall>a \<in> set (stremio_channels t). a < length (heap t)
           \<and> (\<exists>k. toLowerCase k = k \<and> filter (\<lambda>e. channelIdOf R e = k) es \<noteq> []
                  \<and> heap t ! a = merged k (filter (\<lambda>e. channelIdOf R e = k) es)))
     \<and> (\<forall>a \<in> set (stremio_channels t). \<forall>b \<in> set (stremio_channels t).
           tvgId (heap t ! a) = tvgId (heap t ! b) \<longrightarrow> a = b)
     \<and> (\<forall>e \<in> set es. \<exists>a \<in> set (stremio_channels t). tvgId (heap t ! a) = Some (channelIdOf R e))"

section \<open>Facts about the string operations\<close>

lemma isUpperChar_toLowerChar: "\<not> isUpperChar (toLowerChar c)"
proof (cases "isUpperChar c")
  case True
  then have "(of_char c :: nat) + 32 < 256" by (auto simp: isUpperChar_def Let_def)
  then have "(of_char (char_of ((of_char c :: nat) + 32)) :: nat) = of_char c + 32"
    by (simp add: of_char_of)
  with True show ?thesis
    by (auto simp: isUpperChar_def toLowerChar_def Let_def)
next
  case False then show ?thesis by (simp add: toLowerChar_def)
qed

lemma toLowerCase_idem: "toLowerCase (toLowerCase s) = toLowerCase s"
  using isUpperChar_toLowerChar by (simp add: toLowerCase_def toLowerChar_def)

lemma toLowerCase_Nil_iff: "toLowerCase s = [] \<longleftrightarrow> s = []"
  by (simp add: toLowerCase_def)

lemma startsWith_iff: "startsWith s p \<longleftrightarrow> (\<exists>b. s = p @ b)"
  unfolding startsWith_def
  by (metis append_eq_conv_conj append_take_drop_id)

lemma str_includes_iff: "str_includes s p \<longleftrightarrow> (\<exists>a b. s = a @ p @ b)"
proof (induction s)
  case Nil
  then show ?case by auto
next
  case (Cons c cs)
  have "(\<exists>a b. c # cs = a @ p @ b) \<longleftrightarrow> (\<exists>b. c # cs = p @ b) \<or> (\<exists>a b. cs = a @ p @ b)"
  proof
    assume "\<exists>a b. c # cs = a @ p @ b"
    then obtain a b where ab: "c # cs = a @ p @ b" by blast
    show "(\<exists>b. c # cs = p @ b) \<or> (\<exists>a b. cs = a @ p @ b)"
    proof (cases a)
      case Nil then show ?thesis using ab by auto
    next
      case (Cons x a') then show ?thesis using ab by auto
    qed
  next
    assume "(\<exists>b. c # cs = p @ b) \<or> (\<exists>a b. cs = a @ p @ b)"
    then show "\<exists>a b. c # cs = a @ p @ b"
    proof
      assume "\<exists>b. c # cs = p @ b"
      then show ?thesis by (metis append_Nil)
    next
      assume "\<exists>a b. cs = a @ p @ b"
      then show ?thesis by (metis append_Cons)
    qed
  qed
  then show ?case using Cons by (simp add: startsWith_iff)
qed

lemma trim_infix: "\<exists>a b. s = a @ trim s @ b"
proof -
  let ?d = "dropWhile isSpace s"
  have 1: "s = takeWhile isSpace s @ ?d" by simp
  have 2: "?d = rev (dropWhile isSpace (rev ?d)) @ rev (takeWhile isSpace (rev ?d))"
    by (metis rev_append rev_rev_ident takeWhile_dropWhile_id)
  show ?thesis unfolding trim_def using 1 2 by metis
qed

lemma str_includes_trim: "str_includes (trim s) p \<Longrightarrow> str_includes s p"
proof -
  assume "str_includes (trim s) p"
  then obtain a b where "trim s = a @ p @ b" by (auto simp: str_includes_iff)
  moreover obtain a' b' where "s = a' @ trim s @ b'" using trim_infix by blast
  ultimately have "s = (a' @ a) @ p @ (b @ b')" by simp
  then show ?thesis unfolding str_includes_iff by blast
qed

lemma str_includes_drop: "str_includes (drop n s) p \<Longrightarrow> str_includes s p"
proof -
  assume "str_includes (drop n s) p"
  then obtain a b where "drop n s = a @ p @ b" by (auto simp: str_includes_iff)
  then have "s = (take n s @ a) @ p @ b" by (metis append_assoc append_take_drop_id)
  then show ?thesis unfolding str_includes_iff by blast
qed

lemma js_split_unfold:
  "js_split sep s = takeWhile (\<lambda>c. c \<noteq> sep) s #
     (case dropWhile (\<lambda>c. c \<noteq> sep) s of [] \<Rightarrow> [] | _ # r \<Rightarrow> js_split sep r)"
  by (induction s) (auto split: list.splits)

lemma js_split_no_sep: "sep \<notin> set s \<Longrightarrow> js_split sep s = [s]"
  by (induction s) auto

lemma regexQuoted_nonempty: "regexQuoted lit s = Some v \<Longrightarrow> v \<noteq> []"
  by (induction s) (auto simp: Let_def split: if_splits)

lemma regexQuoted_None: "\<not> str_includes s lit \<Longrightarrow> regexQuoted lit s = None"
  by (induction s) (auto simp: Let_def)

section \<open>The rule file, line by line\<close>

lemma ruleLine_spec:
  "ruleLine (rules, rc, sc) l =
     (case specRuleLine l of
        Ignored \<Rightarrow> (rules, rc, sc)
      | Malformed \<Rightarrow> (rules, rc, Suc sc)
      | Rule k v \<Rightarrow> (AList.update k v rules, Suc rc, sc))"
proof (cases "trim l = [] \<or> startsWith (trim l) ''#''")
  case True
  then show ?thesis by (auto simp: specRuleLine_def Let_def)
next
  case False
  note nb = False
  show ?thesis
  proof (cases "CHR ''='' \<in> set (trim l)")
    case False
    then show ?thesis using nb
      by (auto simp: specRuleLine_def Let_def js_split_no_sep)
  next
    case True
    then have d: "dropWhile (\<lambda>c. c \<noteq> CHR ''='') (trim l) \<noteq> []" by simp
    then obtain x r where xr: "dropWhile (\<lambda>c. c \<noteq> CHR ''='') (trim l) = x # r" by (cases "dropWhile (\<lambda>c. c \<noteq> CHR ''='') (trim l)") auto
    have s1: "js_split CHR ''='' (trim l) = takeWhile (\<lambda>c. c \<noteq> CHR ''='') (trim l) # js_split CHR ''='' r"
      using js_split_unfold [of "CHR ''=''" "trim l"] xr by simp
    obtain ws where s2: "js_split CHR ''='' r = takeWhile (\<lambda>c. c \<noteq> CHR ''='') r # ws"
      using js_split_unfold [of "CHR ''=''" r] by blast
    show ?thesis using nb True xr
      by (simp add: specRuleLine_def Let_def s1 s2 toLowerCase_Nil_iff)
  qed
qed

lemma foldl_ruleLine:
  "foldl ruleLine (rules, rc, sc) ls =
     (foldl (\<lambda>r kv. AList.update (fst kv) (snd kv) r) rules (specRules ls),
      rc + length (specRules ls),
      sc + length (filter (\<lambda>l. specRuleLine l = Malformed) ls))"
proof (induction ls arbitrary: rules rc sc)
  case Nil
  then show ?case by (simp add: specRules_def)
next
  case (Cons l ls)
  show ?case
    by (cases "specRuleLine l") (simp_all add: ruleLine_spec Cons.IH specRules_def del: ruleLine.simps)
qed

text \<open>
  C7. Loading the remapping file never aborts a run. \<^const>\<open>loadRemappingRules\<close> has a result for
  every input, the source catching every exception of the read. For every content of the
  file the rules stored are those of its well-formed lines, added in file order to the rules
  the transformer holds, key and value trimmed and lower-cased (\<^const>\<open>specRuleLine\<close>); the
  counter of loaded rules is the number of well-formed lines and the counter of skipped
  rules the number of malformed ones; blank lines and lines starting with \<^verbatim>\<open>#\<close> count in
  neither. When the file cannot be read the transformer is left as it is, so a newly
  constructed one has the empty rule set.
\<close>

theorem loadRemappingRules_lines:
  "loadRemappingRules (Some content) t =
     (t\<lparr>remappingRules := foldl (\<lambda>r kv. AList.update (fst kv) (snd kv) r) (remappingRules t)
                               (specRules (js_split CHR 0x0A content))\<rparr>,
      length (specRules (js_split CHR 0x0A content)),
      length (filter (\<lambda>l. specRuleLine l = Malformed) (js_split CHR 0x0A content)))
   \<and> loadRemappingRules None t = (t, 0, 0)
   \<and> remappingRules (fst (loadRemappingRules None newTransformer)) = []"
  by (simp add: loadRemappingRules_def foldl_ruleLine newTransformer_def)

theorem loadRemappingRules_lines_example:
  "loadRemappingRules (Some ''# rules\<newline>\<newline> ChFoo = ChBar \<newline>broken\<newline>=x\<newline>y= \<newline>A=b=c'') newTransformer
     = (newTransformer\<lparr>remappingRules := [(''chfoo'', ''chbar''), (''a'', ''b'')]\<rparr>, 2, 3)
   \<and> loadRemappingRules None newTransformer = (newTransformer, 0, 0)"
proof -
  let ?c = "''# rules\<newline>\<newline> ChFoo = ChBar \<newline>broken\<newline>=x\<newline>y= \<newline>A=b=c''"
  have s: "specRules (js_split CHR 0x0A ?c) = [(''chfoo'', ''chbar''), (''a'', ''b'')]"
    by code_simp
  have m: "length (filter (\<lambda>l. specRuleLine l = Malformed) (js_split CHR 0x0A ?c)) = 3"
    by code_simp
  have r: "remappingRules newTransformer = []" by (simp add: newTransformer_def)
  show ?thesis
    using loadRemappingRules_lines [of ?c newTransformer] unfolding s m r by simp
qed

section \<open>The guide URLs of a run\<close>

lemma extractEpgUrl_nonempty: "extractEpgUrl ls = Some v \<Longrightarrow> v \<noteq> []"
  by (auto simp: extractEpgUrl_def regexQuoted_nonempty split: list.splits if_splits)

lemma parseM3U_epgUrl: "epgUrl (fst (parseM3U doc t)) = extractEpgUrl (js_split CHR 0x0A doc)"
  by (simp add: parseM3U_def Let_def)

lemma playlistLoop_epgUrls:
  "snd (snd (fst (playlistLoop docs (cs, gs, es) t))) = foldl addEpgUrl es (map guideUrlOf docs)"
proof (induction docs arbitrary: cs gs es t)
  case Nil
  then show ?case by simp
next
  case (Cons d docs)
  obtain r t' where p: "parseM3U d t = (r, t')" by (cases "parseM3U d t")
  have "epgUrl r = guideUrlOf d" using parseM3U_epgUrl [of d t] p by (simp add: guideUrlOf_def)
  then show ?case using p by (simp add: Cons.IH)
qed

lemma foldl_addEpgUrl:
  "foldl addEpgUrl [] (map guideUrlOf docs) = rev (remdups (rev (List.map_filter guideUrlOf docs)))"
proof (induction docs rule: rev_induct)
  case Nil
  then show ?case by (simp add: List.map_filter_simps)
next
  case (snoc d docs)
  have app: "List.map_filter guideUrlOf (docs @ [d]) = List.map_filter guideUrlOf docs @ (case guideUrlOf d of None \<Rightarrow> [] | Some u \<Rightarrow> [u])"
    by (simp add: List.map_filter_def split: option.splits)
  show ?case
  proof (cases "guideUrlOf d")
    case None
    then show ?thesis using snoc app by (simp add: addEpgUrl_def)
  next
    case (Some u)
    then have "u \<noteq> []" by (auto simp: guideUrlOf_def dest: extractEpgUrl_nonempty)
    then show ?thesis using snoc app Some by (simp add: addEpgUrl_def)
  qed
qed

text \<open>
  C8. For every sequence of documents the \<^verbatim>\<open>epgUrl\<close> of the run is the comma-join, in document
  order, of the guide URLs the documents yield, each kept at its first occurrence only
  (\<open>rev (remdups (rev us))\<close>), and it is absent when no document yields one.
\<close>

theorem guideUrl_union:
  "epgUrl (fst (loadAndTransform remap docs t)) =
     (let us = rev (remdups (rev (List.map_filter guideUrlOf docs)))
      in if us = [] then None else Some (join '','' us))"
proof -
  obtain cs gs es t' where p: "playlistLoop docs ([], [], []) (fst (loadRemappingRules remap t)) = ((cs, gs, es), t')"
    by (metis prod.exhaust)
  have "es = foldl addEpgUrl [] (map guideUrlOf docs)"
    using playlistLoop_epgUrls [of docs "[]" "[]" "[]" "fst (loadRemappingRules remap t)"] p by simp
  then show ?thesis
    using p by (simp add: loadAndTransform_def foldl_addEpgUrl Let_def)
qed

theorem guideUrl_union_example:
  "epgUrl (fst (loadAndTransform None
      [''#EXTM3U url-tvg=\"http://x/epg1\"'', ''#EXTM3U url-tvg=\"http://x/epg1\"'',
       ''#EXTM3U'', ''#EXTM3U url-tvg=\"http://x/epg2\"''] newTransformer))
     = Some ''http://x/epg1,http://x/epg2''
   \<and> epgUrl (fst (loadAndTransform None [''#EXTM3U'', ''#EXTINF:-1,A\<newline>http://a''] newTransformer)) = None"
proof -
  have a: "(let us = rev (remdups (rev (List.map_filter guideUrlOf
      [''#EXTM3U url-tvg=\"http://x/epg1\"'', ''#EXTM3U url-tvg=\"http://x/epg1\"'',
       ''#EXTM3U'', ''#EXTM3U url-tvg=\"http://x/epg2\"''])))
      in if us = [] then None else Some (join '','' us)) = Some ''http://x/epg1,http://x/epg2''"
    by code_simp
  have b: "(let us = rev (remdups (rev (List.map_filter guideUrlOf [''#EXTM3U'', ''#EXTINF:-1,A\<newline>http://a''])))
      in if us = [] then None else Some (join '','' us)) = None"
    by code_simp
  show ?thesis unfolding guideUrl_union a b by simp
qed

section \<open>Completing a pending entry\<close>

lemma startsWith_http_not_extinf: "startsWith s ''http'' \<Longrightarrow> \<not> startsWith s ''#EXTINF:''"
  by (cases s) (auto simp: startsWith_def)

lemma parseLoop_skip:
  "\<not> startsWith (trim l) ''#EXTINF:'' \<Longrightarrow> \<not> startsWith (trim l) ''http''
    \<Longrightarrow> parseLoop (l # ls) cur t = parseLoop ls cur t"
  by (simp add: Let_def)

lemma parseLoop_http:
  "startsWith (trim l) ''http''
    \<Longrightarrow> parseLoop (l # ls) (Some ch) t = parseLoop ls None (emit (ch\<lparr>ch_url := trim l\<rparr>) t)"
  by (simp add: Let_def startsWith_http_not_extinf)

text \<open>
  C6, as amended. For every pending entry, the first following line that begins, once
  trimmed, with the characters \<^verbatim>\<open>http\<close> is taken, trimmed, as its stream URL: the entry is
  emitted with that URL and the pending state is cleared, whatever lines of no recognized
  class (neither \<^verbatim>\<open>#EXTINF:\<close> nor \<^verbatim>\<open>http\<close>) stand between; those are skipped and leave the
  pending entry as it is. The claim as stated says any URL scheme: a line of another scheme
  (\<^verbatim>\<open>rtmp://\<close>, \<^verbatim>\<open>rtsp://\<close>, \<^verbatim>\<open>udp://\<close>) is, for the source, one more line of no recognized
  class.
\<close>

theorem parseLoop_first_http_line:
  assumes "list_all (\<lambda>l. \<not> startsWith (trim l) ''#EXTINF:'' \<and> \<not> startsWith (trim l) ''http'') skipped"
    and "startsWith (trim u) ''http''"
  shows "parseLoop (skipped @ u # rest) (Some ch) t
           = parseLoop rest None (emit (ch\<lparr>ch_url := trim u\<rparr>) t)"
  using assms
proof (induction skipped)
  case Nil
  then show ?case by (simp add: parseLoop_http del: parseLoop.simps)
next
  case (Cons l skipped)
  then show ?case by (simp add: parseLoop_skip del: parseLoop.simps)
qed

theorem parseLoop_first_http_line_witness:
  "list_all (\<lambda>l. \<not> startsWith (trim l) ''#EXTINF:'' \<and> \<not> startsWith (trim l) ''http'') ['''', ''# note'', ''rtmp://h/s'']
   \<and> startsWith (trim '' http://h/t '') ''http''
   \<and> parseLoop (['''', ''# note'', ''rtmp://h/s''] @ '' http://h/t '' # [''#EXTM3U'']) (Some (parseExtinf ''#EXTINF:-1,A'' [])) newTransformer
        = parseLoop [''#EXTM3U''] None (emit ((parseExtinf ''#EXTINF:-1,A'' [])\<lparr>ch_url := trim '' http://h/t ''\<rparr>) newTransformer)"
proof -
  have h1: "list_all (\<lambda>l. \<not> startsWith (trim l) ''#EXTINF:'' \<and> \<not> startsWith (trim l) ''http'') ['''', ''# note'', ''rtmp://h/s'']"
    by code_simp
  have h2: "startsWith (trim '' http://h/t '') ''http''" by code_simp
  show ?thesis
    by (intro conjI h1 h2 parseLoop_first_http_line [OF h1 h2])
qed

text \<open>
  The claim as stated fails on an entry followed by an \<^verbatim>\<open>rtmp\<close> URL: no channel is produced,
  and when an \<^verbatim>\<open>http\<close> line comes later it is that line, not the first line with a URL
  scheme, that becomes the stream.
\<close>

theorem other_scheme_not_taken:
  "channels (fst (parseM3U ''#EXTINF:-1,A\<newline>rtmp://h/s'' newTransformer)) = []
  \<and> map (\<lambda>c. map s_url (urls (streamInfo c))) (channels (fst (parseM3U ''#EXTINF:-1,A\<newline>rtmp://h/s\<newline>http://h/t'' newTransformer)))
     = [[''http://h/t''], [''http://h/t'']]"
  by code_simp

section \<open>The default genre\<close>

lemma parseExtinf_no_group:
  assumes "\<not> str_includes line ''group-title=\"''"
  shows "ch_group (parseExtinf line hs) = ''Altri canali''"
proof -
  have "\<not> str_includes (trim (drop 8 line)) ''group-title=\"''"
    using assms str_includes_trim str_includes_drop by blast
  then show ?thesis by (simp add: parseExtinf_def Let_def regexQuoted_None)
qed

lemma genre_newChannel: "ch_group ch = ''Altri canali'' \<Longrightarrow> genre (newChannel k ch) = [''Altri canali'']"
  by (simp add: newChannel_def groupOf_def orElse_def Let_def)

lemma setAdd_mono: "x \<in> set xs \<Longrightarrow> x \<in> set (setAdd xs y)"
  by (simp add: setAdd_def)

lemma setAdd_mem: "y \<in> set (setAdd xs y)"
  by (simp add: setAdd_def)

lemma emit_genres_mono: "x \<in> set (stremio_genres t) \<Longrightarrow> x \<in> set (stremio_genres (emit ch t))"
  by (auto simp: emit_def transformChannelToStremio_def Let_def setAdd_mono split: option.splits)

lemma parseLoop_genres_mono:
  "x \<in> set (stremio_genres t) \<Longrightarrow> x \<in> set (stremio_genres (parseLoop ls cur t))"
proof (induction ls cur t rule: parseLoop.induct)
  case (1 cur t)
  then show ?case by simp
next
  case (2 l ls cur t)
  then show ?case
    by (auto simp: Let_def emit_genres_mono split: option.splits)
qed

lemma parseM3U_genres_sentinel: "''Altri canali'' \<in> set (genres (fst (parseM3U doc t)))"
  by (simp add: parseM3U_def Let_def parseLoop_genres_mono)

lemma foldl_setAdd_mono: "x \<in> set acc \<Longrightarrow> x \<in> set (foldl setAdd acc ys)"
  by (induction ys arbitrary: acc) (auto simp: setAdd_mono)

lemma foldl_setAdd_mem: "x \<in> set ys \<Longrightarrow> x \<in> set (foldl setAdd acc ys)"
  by (induction ys arbitrary: acc) (auto simp: setAdd_mem foldl_setAdd_mono)

lemma playlistLoop_genres_mono:
  "x \<in> set gs \<Longrightarrow> x \<in> set (fst (snd (fst (playlistLoop docs (cs, gs, es) t))))"
proof (induction docs arbitrary: cs gs es t)
  case Nil
  then show ?case by simp
next
  case (Cons d docs)
  obtain r t' where p: "parseM3U d t = (r, t')" by (cases "parseM3U d t")
  show ?case using p Cons.prems by (simp add: Cons.IH foldl_setAdd_mono)
qed

lemma playlistLoop_genres_sentinel:
  "docs \<noteq> [] \<Longrightarrow> ''Altri canali'' \<in> set (fst (snd (fst (playlistLoop docs (cs, gs, es) t))))"
proof (cases docs)
  case Nil
  assume "docs \<noteq> []" with Nil show ?thesis by simp
next
  case (Cons d ds)
  obtain r t' where p: "parseM3U d t = (r, t')" by (cases "parseM3U d t")
  have "''Altri canali'' \<in> set (genres r)" using parseM3U_genres_sentinel [of d t] p by simp
  then show ?thesis using Cons p by (simp add: playlistLoop_genres_mono foldl_setAdd_mem)
qed

text \<open>
  C9, as amended. An entry whose metadata line has no \<^verbatim>\<open>group-title="\<close> gets the group
  \<^verbatim>\<open>Altri canali\<close>, and the channel created from it that genre; the genres of every document
  hold \<^verbatim>\<open>Altri canali\<close>, whatever its entries, and so do the genres of every run over at least
  one document. The claim as stated says every run: the sentinel is added by \<^verbatim>\<open>parseM3U\<close>
  only, and a run over no document returns no genre.
\<close>

theorem sentinel_genre:
  "(\<not> str_includes line ''group-title=\"'' \<longrightarrow>
      ch_group (parseExtinf line hs) = ''Altri canali''
      \<and> genre (newChannel k ((parseExtinf line hs)\<lparr>ch_url := u\<rparr>)) = [''Altri canali''])
   \<and> ''Altri canali'' \<in> set (genres (fst (parseM3U doc t)))
   \<and> (docs \<noteq> [] \<longrightarrow> ''Altri canali'' \<in> set (genres (fst (loadAndTransform remap docs t))))"
proof (intro conjI impI)
  assume a: "\<not> str_includes line ''group-title=\"''"
  show "ch_group (parseExtinf line hs) = ''Altri canali''" using a by (rule parseExtinf_no_group)
  then show "genre (newChannel k ((parseExtinf line hs)\<lparr>ch_url := u\<rparr>)) = [''Altri canali'']"
    by (simp add: genre_newChannel)
next
  show "''Altri canali'' \<in> set (genres (fst (parseM3U doc t)))" by (rule parseM3U_genres_sentinel)
next
  assume d: "docs \<noteq> []"
  obtain cs gs es t' where p: "playlistLoop docs ([], [], []) (fst (loadRemappingRules remap t)) = ((cs, gs, es), t')"
    by (metis prod.exhaust)
  have "''Altri canali'' \<in> set gs"
    using playlistLoop_genres_sentinel [OF d, of "[]" "[]" "[]" "fst (loadRemappingRules remap t)"] p by simp
  then show "''Altri canali'' \<in> set (genres (fst (loadAndTransform remap docs t)))"
    using p by (simp add: loadAndTransform_def)
qed

theorem sentinel_genre_witness:
  "\<not> str_includes ''#EXTINF:-1 tvg-id=\"x\",A'' ''group-title=\"''
   \<and> ch_group (parseExtinf ''#EXTINF:-1 tvg-id=\"x\",A'' []) = ''Altri canali''
   \<and> genre (newChannel ''x'' ((parseExtinf ''#EXTINF:-1 tvg-id=\"x\",A'' [])\<lparr>ch_url := ''http://a''\<rparr>)) = [''Altri canali'']
   \<and> ''Altri canali'' \<in> set (genres (fst (parseM3U ''#EXTM3U'' newTransformer)))
   \<and> ''Altri canali'' \<in> set (genres (fst (loadAndTransform None [''#EXTINF:-1 group-title=\"News\",A\<newline>http://a''] newTransformer)))"
proof -
  have h: "\<not> str_includes ''#EXTINF:-1 tvg-id=\"x\",A'' ''group-title=\"''" by code_simp
  have d: "[''#EXTINF:-1 group-title=\"News\",A\<newline>http://a''] \<noteq> []" by simp
  note s = sentinel_genre [where line = "''#EXTINF:-1 tvg-id=\"x\",A''" and hs = "[]" and k = "''x''"
      and u = "''http://a''" and doc = "''#EXTM3U''" and t = newTransformer
      and docs = "[''#EXTINF:-1 group-title=\"News\",A\<newline>http://a'']"]
  from s h d show ?thesis by blast
qed

theorem no_document_no_genre:
  "genres (fst (loadAndTransform None [] newTransformer)) = []"
  by code_simp

section \<open>The channels of one document\<close>

lemma channelIdOf_lower: "toLowerCase (channelIdOf R e) = channelIdOf R e"
  by (simp add: channelIdOf_def Let_def toLowerCase_idem split: option.splits)

lemma parseLoop_segment:
  "parseLoop ls cur t = foldl (\<lambda>t e. emit e t) t (segment ls cur)"
proof (induction ls cur t rule: parseLoop.induct)
  case (1 cur t)
  then show ?case by simp
next
  case (2 l ls cur t)
  then show ?case by (auto simp: Let_def split: option.splits)
qed

lemma tvgId_newChannel: "tvgId (newChannel k e) = Some k"
  by (simp add: tvgId_def newChannel_def Let_def AList.update_conv')

lemma tvgId_merged: "tvgId (merged k es) = Some k"
  using tvgId_newChannel [of k "hd es"] by (simp add: merged_def tvgId_def)

lemma id_merged: "id' (merged k es) = ''tv|'' @ k"
  by (simp add: merged_def newChannel_def Let_def)

lemma tvgId_addStream: "tvgId (addStream e c) = tvgId c"
  by (simp add: addStream_def tvgId_def)

lemma merged_single: "merged k [e] = newChannel k e"
  by (simp add: merged_def newChannel_def Let_def streamOf_def)

lemma addStream_merged: "es \<noteq> [] \<Longrightarrow> addStream e (merged k es) = merged k (es @ [e])"
  by (cases es) (simp_all add: addStream_def merged_def streamOf_def)

lemma urls_merged: "urls (streamInfo (merged k es)) = map streamOf es"
  by (simp add: merged_def)

lemma fields_merged:
  "name (merged k (e # es)) = orElse (map_of (ch_tvg e) ''name'') (ch_name e)
   \<and> genre (merged k (e # es)) = [groupOf e]
   \<and> logo (merged k (e # es)) = map_of (ch_tvg e) ''logo''
   \<and> poster (merged k (e # es)) = map_of (ch_tvg e) ''logo''
   \<and> background (merged k (e # es)) = map_of (ch_tvg e) ''logo''"
  by (simp add: merged_def newChannel_def Let_def)

lemma hasTvgId_iff: "toLowerCase k = k \<Longrightarrow> tvgId c = Some k' \<Longrightarrow> toLowerCase k' = k'
   \<Longrightarrow> hasTvgId k c \<longleftrightarrow> k' = k"
  by (auto simp: hasTvgId_def tvgId_def)

lemma emit_existing:
  "find (\<lambda>a. hasTvgId (channelIdOf (remappingRules t) e) (heap t ! a)) (stremio_channels t) = Some a
   \<Longrightarrow> emit e t = t\<lparr>heap := (heap t)[a := addStream e (heap t ! a)]\<rparr>"
  by (simp add: emit_def transformChannelToStremio_def Let_def)

lemma emit_new:
  "find (\<lambda>a. hasTvgId (channelIdOf (remappingRules t) e) (heap t ! a)) (stremio_channels t) = None
   \<Longrightarrow> emit e t = t\<lparr>stremio_genres := setAdd (stremio_genres t) (groupOf e),
                     stremio_channels := stremio_channels t @ [length (heap t), length (heap t)],
                     heap := heap t @ [newChannel (channelIdOf (remappingRules t) e) e]\<rparr>"
  by (simp add: emit_def transformChannelToStremio_def Let_def)

lemma docInv_rules: "docInv R es t \<Longrightarrow> remappingRules t = R"
  by (simp add: docInv_def)

lemma docInv_bound: "docInv R es t \<Longrightarrow> a \<in> set (stremio_channels t) \<Longrightarrow> a < length (heap t)"
  by (simp add: docInv_def)

lemma docInv_merged:
  "docInv R es t \<Longrightarrow> a \<in> set (stremio_channels t) \<Longrightarrow>
     \<exists>k. toLowerCase k = k \<and> filter (\<lambda>e. channelIdOf R e = k) es \<noteq> []
         \<and> heap t ! a = merged k (filter (\<lambda>e. channelIdOf R e = k) es)"
  by (simp add: docInv_def)

lemma docInv_inj:
  "docInv R es t \<Longrightarrow> a \<in> set (stremio_channels t) \<Longrightarrow> b \<in> set (stremio_channels t)
     \<Longrightarrow> tvgId (heap t ! a) = tvgId (heap t ! b) \<Longrightarrow> a = b"
  by (simp add: docInv_def)

lemma docInv_covers:
  "docInv R es t \<Longrightarrow> e \<in> set es
     \<Longrightarrow> \<exists>a \<in> set (stremio_channels t). tvgId (heap t ! a) = Some (channelIdOf R e)"
  by (simp add: docInv_def)

lemma docInvI:
  assumes "remappingRules t = R"
    and "\<And>a. a \<in> set (stremio_channels t) \<Longrightarrow> a < length (heap t)"
    and "\<And>a. a \<in> set (stremio_channels t) \<Longrightarrow>
           \<exists>k. toLowerCase k = k \<and> filter (\<lambda>e. channelIdOf R e = k) es \<noteq> []
               \<and> heap t ! a = merged k (filter (\<lambda>e. channelIdOf R e = k) es)"
    and "\<And>a b. a \<in> set (stremio_channels t) \<Longrightarrow> b \<in> set (stremio_channels t)
           \<Longrightarrow> tvgId (heap t ! a) = tvgId (heap t ! b) \<Longrightarrow> a = b"
    and "\<And>e. e \<in> set es \<Longrightarrow> \<exists>a \<in> set (stremio_channels t). tvgId (heap t ! a) = Some (channelIdOf R e)"
  shows "docInv R es t"
  unfolding docInv_def using assms by blast

lemma docInv_has:
  assumes "docInv R es t" and "a \<in> set (stremio_channels t)" and "toLowerCase k = k"
  shows "hasTvgId k (heap t ! a) \<longleftrightarrow> tvgId (heap t ! a) = Some k"
proof -
  from docInv_merged [OF assms(1,2)] obtain k' where k': "toLowerCase k' = k'"
      "heap t ! a = merged k' (filter (\<lambda>e. channelIdOf R e = k') es)"
    by blast
  then have "tvgId (heap t ! a) = Some k'" by (simp add: tvgId_merged)
  then show ?thesis using hasTvgId_iff [OF assms(3) _ k'(1)] by auto
qed

lemma docInv_existing:
  assumes inv: "docInv R es t"
    and f: "find (\<lambda>a. hasTvgId (channelIdOf R e) (heap t ! a)) (stremio_channels t) = Some a"
  shows "docInv R (es @ [e]) (t\<lparr>heap := (heap t)[a := addStream e (heap t ! a)]\<rparr>)"
proof (rule docInvI)
  let ?k = "channelIdOf R e"
  let ?t = "t\<lparr>heap := (heap t)[a := addStream e (heap t ! a)]\<rparr>"
  have lk: "toLowerCase ?k = ?k" by (rule channelIdOf_lower)
  from f have a: "a \<in> set (stremio_channels t)" and ha: "hasTvgId ?k (heap t ! a)"
    by (auto simp: find_Some_iff)
  then have ta: "tvgId (heap t ! a) = Some ?k" using docInv_has [OF inv a lk] by simp
  have al: "a < length (heap t)" using docInv_bound [OF inv a] .
  have tv: "tvgId (heap ?t ! b) = tvgId (heap t ! b)" for b
    using al by (cases "b = a") (simp_all add: tvgId_addStream)
  show "remappingRules ?t = R" using docInv_rules [OF inv] by simp
  show "b < length (heap ?t)" if "b \<in> set (stremio_channels ?t)" for b
    using docInv_bound [OF inv, of b] that by simp
  show "\<exists>k. toLowerCase k = k \<and> filter (\<lambda>x. channelIdOf R x = k) (es @ [e]) \<noteq> []
            \<and> heap ?t ! b = merged k (filter (\<lambda>x. channelIdOf R x = k) (es @ [e]))"
    if "b \<in> set (stremio_channels ?t)" for b
  proof -
    from that have b: "b \<in> set (stremio_channels t)" by simp
    from docInv_merged [OF inv b] obtain k where k: "toLowerCase k = k"
        "filter (\<lambda>x. channelIdOf R x = k) es \<noteq> []"
        "heap t ! b = merged k (filter (\<lambda>x. channelIdOf R x = k) es)"
      by blast
    show ?thesis
    proof (cases "b = a")
      case True
      have "k = ?k" using k(3) ta True by (simp add: tvgId_merged)
      then have "heap ?t ! b = merged ?k (filter (\<lambda>x. channelIdOf R x = ?k) (es @ [e]))"
        using True k al by (simp add: addStream_merged)
      moreover have "filter (\<lambda>x. channelIdOf R x = ?k) (es @ [e]) \<noteq> []" by simp
      ultimately show ?thesis using lk by (intro exI [of _ ?k] conjI)
    next
      case False
      then have "tvgId (heap t ! b) \<noteq> Some ?k" using docInv_inj [OF inv b a] ta by auto
      then have "k \<noteq> ?k" using k(3) by (simp add: tvgId_merged)
      then have "filter (\<lambda>x. channelIdOf R x = k) (es @ [e]) = filter (\<lambda>x. channelIdOf R x = k) es"
        by auto
      moreover have "heap ?t ! b = heap t ! b" using False by simp
      ultimately show ?thesis using k by (intro exI [of _ k] conjI) simp_all
    qed
  qed
  show "x = y" if "x \<in> set (stremio_channels ?t)" "y \<in> set (stremio_channels ?t)"
      "tvgId (heap ?t ! x) = tvgId (heap ?t ! y)" for x y
    using docInv_inj [OF inv, of x y] that unfolding tv by simp
  show "\<exists>b \<in> set (stremio_channels ?t). tvgId (heap ?t ! b) = Some (channelIdOf R x)"
    if "x \<in> set (es @ [e])" for x
  proof (cases "x = e")
    case True
    then show ?thesis using a ta unfolding tv by auto
  next
    case False
    then have "x \<in> set es" using that by simp
    from docInv_covers [OF inv this] show ?thesis unfolding tv by simp
  qed
qed

lemma docInv_new:
  assumes inv: "docInv R es t"
    and f: "find (\<lambda>a. hasTvgId (channelIdOf R e) (heap t ! a)) (stremio_channels t) = None"
  shows "docInv R (es @ [e])
           (t\<lparr>stremio_genres := g,
              stremio_channels := stremio_channels t @ [length (heap t), length (heap t)],
              heap := heap t @ [newChannel (channelIdOf R e) e]\<rparr>)"
proof (rule docInvI)
  let ?k = "channelIdOf R e"
  let ?n = "length (heap t)"
  let ?t = "t\<lparr>stremio_genres := g,
              stremio_channels := stremio_channels t @ [length (heap t), length (heap t)],
              heap := heap t @ [newChannel (channelIdOf R e) e]\<rparr>"
  have lk: "toLowerCase ?k = ?k" by (rule channelIdOf_lower)
  have none: "tvgId (heap t ! b) \<noteq> Some ?k" if "b \<in> set (stremio_channels t)" for b
    using f that docInv_has [OF inv that lk] by (auto simp: find_None_iff)
  have fresh: "filter (\<lambda>x. channelIdOf R x = ?k) es = []"
  proof (rule ccontr)
    assume "filter (\<lambda>x. channelIdOf R x = ?k) es \<noteq> []"
    then obtain x where x: "x \<in> set es" "channelIdOf R x = ?k"
      by (auto simp: filter_empty_conv)
    from docInv_covers [OF inv x(1)] x(2) none show False by auto
  qed
  have old: "heap ?t ! b = heap t ! b" if "b \<in> set (stremio_channels t)" for b
    using docInv_bound [OF inv that] by (simp add: nth_append)
  have new: "heap ?t ! ?n = newChannel ?k e" by simp
  have mem: "b \<in> set (stremio_channels ?t) \<longleftrightarrow> b \<in> set (stremio_channels t) \<or> b = ?n" for b
    by auto
  have notn: "b \<noteq> ?n" if "b \<in> set (stremio_channels t)" for b
    using docInv_bound [OF inv that] by simp
  show "remappingRules ?t = R" using docInv_rules [OF inv] by simp
  show "b < length (heap ?t)" if "b \<in> set (stremio_channels ?t)" for b
    using that docInv_bound [OF inv, of b] unfolding mem by auto
  show "\<exists>k. toLowerCase k = k \<and> filter (\<lambda>x. channelIdOf R x = k) (es @ [e]) \<noteq> []
            \<and> heap ?t ! b = merged k (filter (\<lambda>x. channelIdOf R x = k) (es @ [e]))"
    if "b \<in> set (stremio_channels ?t)" for b
  proof (cases "b = ?n")
    case True
    have "filter (\<lambda>x. channelIdOf R x = ?k) (es @ [e]) = [e]" using fresh by simp
    then show ?thesis using True lk new
      by (intro exI [of _ ?k] conjI) (simp_all add: merged_single del: new)
  next
    case False
    then have b: "b \<in> set (stremio_channels t)" using that unfolding mem by simp
    from docInv_merged [OF inv b] obtain k where k: "toLowerCase k = k"
        "filter (\<lambda>x. channelIdOf R x = k) es \<noteq> []"
        "heap t ! b = merged k (filter (\<lambda>x. channelIdOf R x = k) es)"
      by blast
    have "k \<noteq> ?k" using none [OF b] k(3) by (simp add: tvgId_merged)
    then have "filter (\<lambda>x. channelIdOf R x = k) (es @ [e]) = filter (\<lambda>x. channelIdOf R x = k) es"
      by auto
    then show ?thesis using k old [OF b]
      by (intro exI [of _ k] conjI) simp_all
  qed
  show "x = y" if xy: "x \<in> set (stremio_channels ?t)" "y \<in> set (stremio_channels ?t)"
      "tvgId (heap ?t ! x) = tvgId (heap ?t ! y)" for x y
  proof (cases "x = ?n")
    case True
    note xn = True
    show ?thesis
    proof (cases "y = ?n")
      case True
      then show ?thesis using xn by simp
    next
      case False
      then have y: "y \<in> set (stremio_channels t)" using xy(2) unfolding mem by simp
      have "tvgId (heap ?t ! x) = Some ?k" using xn by (simp add: tvgId_newChannel)
      then show ?thesis using xy(3) old [OF y] none [OF y] by simp
    qed
  next
    case False
    then have x: "x \<in> set (stremio_channels t)" using xy(1) unfolding mem by simp
    show ?thesis
    proof (cases "y = ?n")
      case True
      have "tvgId (heap ?t ! y) = Some ?k" using True by (simp add: tvgId_newChannel)
      then show ?thesis using xy(3) old [OF x] none [OF x] by simp
    next
      case False
      then have y: "y \<in> set (stremio_channels t)" using xy(2) unfolding mem by simp
      show ?thesis using docInv_inj [OF inv x y] xy(3) old [OF x] old [OF y] by simp
    qed
  qed
  show "\<exists>b \<in> set (stremio_channels ?t). tvgId (heap ?t ! b) = Some (channelIdOf R x)"
    if "x \<in> set (es @ [e])" for x
  proof (cases "x \<in> set es")
    case True
    from docInv_covers [OF inv True] obtain b where b: "b \<in> set (stremio_channels t)"
        "tvgId (heap t ! b) = Some (channelIdOf R x)"
      by blast
    then have "b \<in> set (stremio_channels ?t)" "tvgId (heap ?t ! b) = Some (channelIdOf R x)"
      using old [OF b(1)] unfolding mem by simp_all
    then show ?thesis by blast
  next
    case False
    then have "x = e" using that by simp
    moreover have "?n \<in> set (stremio_channels ?t)" unfolding mem by simp
    moreover have "tvgId (heap ?t ! ?n) = Some ?k" by (simp add: tvgId_newChannel)
    ultimately show ?thesis by blast
  qed
qed

lemma emit_docInv: "docInv R es t \<Longrightarrow> docInv R (es @ [e]) (emit e t)"
proof -
  assume inv: "docInv R es t"
  have r: "remappingRules t = R" using docInv_rules [OF inv] .
  show ?thesis
  proof (cases "find (\<lambda>a. hasTvgId (channelIdOf R e) (heap t ! a)) (stremio_channels t)")
    case None
    then show ?thesis using docInv_new [OF inv None] emit_new [of t e] r by simp
  next
    case (Some a)
    then show ?thesis using docInv_existing [OF inv Some] emit_existing [of t e a] r by simp
  qed
qed

lemma foldl_emit_docInv:
  "docInv R es t \<Longrightarrow> docInv R (es @ xs) (foldl (\<lambda>t e. emit e t) t xs)"
proof (induction xs arbitrary: es t)
  case Nil
  then show ?case by simp
next
  case (Cons x xs)
  from Cons.IH [OF emit_docInv [OF Cons.prems, of x]] show ?case by simp
qed

lemma docInv_reset: "docInv (remappingRules t) [] (t\<lparr>stremio_genres := g, stremio_channels := []\<rparr>)"
  by (simp add: docInv_def)

lemma parseM3U_docInv:
  "docInv (remappingRules t) (entries doc) (snd (parseM3U doc t))"
  using foldl_emit_docInv [OF docInv_reset [of t "[''Altri canali'']"], of "entries doc"]
  by (simp add: parseM3U_def Let_def parseLoop_segment entries_def)

lemma parseM3U_rules: "remappingRules (snd (parseM3U doc t)) = remappingRules t"
  using docInv_rules [OF parseM3U_docInv] .

lemma parseM3U_channels:
  "channels (fst (parseM3U doc t))
     = map (\<lambda>a. heap (snd (parseM3U doc t)) ! a) (stremio_channels (snd (parseM3U doc t)))"
  by (simp add: parseM3U_def Let_def)

lemma docInv_at:
  assumes inv: "docInv R es t" and b: "b \<in> set (stremio_channels t)"
    and i: "id' (heap t ! b) = ''tv|'' @ k"
  shows "heap t ! b = merged k (filter (\<lambda>e. channelIdOf R e = k) es)"
proof -
  from docInv_merged [OF inv b] obtain k' where k': 
      "heap t ! b = merged k' (filter (\<lambda>x. channelIdOf R x = k') es)"
    by blast
  then have "k' = k" using i by (simp add: id_merged)
  then show ?thesis using k' by simp
qed

lemma docInv_entry:
  assumes inv: "docInv R es t" and e: "e \<in> set es"
  shows "\<exists>a \<in> set (stremio_channels t).
           heap t ! a = merged (channelIdOf R e) (filter (\<lambda>x. channelIdOf R x = channelIdOf R e) es)"
proof -
  from docInv_covers [OF inv e] obtain a where a: "a \<in> set (stremio_channels t)"
      "tvgId (heap t ! a) = Some (channelIdOf R e)"
    by blast
  from docInv_merged [OF inv a(1)] obtain k' where k': 
      "heap t ! a = merged k' (filter (\<lambda>x. channelIdOf R x = k') es)"
    by blast
  then have "k' = channelIdOf R e" using a(2) by (simp add: tvgId_merged)
  then show ?thesis using a(1) k' by blast
qed

lemma find_unique:
  "\<exists>x \<in> set xs. P x \<Longrightarrow> \<forall>x \<in> set xs. P x \<longrightarrow> x = c \<Longrightarrow> find P xs = Some c"
  by (induction xs) auto

lemma parseM3U_find:
  assumes e: "e \<in> set (entries doc)" and k: "k = channelIdOf (remappingRules t) e"
  shows "find (\<lambda>x. id' x = ''tv|'' @ k) (channels (fst (parseM3U doc t)))
           = Some (merged k (filter (\<lambda>x. channelIdOf (remappingRules t) x = k) (entries doc)))"
proof (rule find_unique)
  let ?t = "snd (parseM3U doc t)"
  let ?m = "merged k (filter (\<lambda>x. channelIdOf (remappingRules t) x = k) (entries doc))"
  have inv: "docInv (remappingRules t) (entries doc) ?t" by (rule parseM3U_docInv)
  from docInv_entry [OF inv e] obtain a where a: "a \<in> set (stremio_channels ?t)" "heap ?t ! a = ?m"
    unfolding k by blast
  have "heap ?t ! a \<in> set (map (\<lambda>a. heap ?t ! a) (stremio_channels ?t))"
    using a(1) by simp
  then have "?m \<in> set (channels (fst (parseM3U doc t)))"
    unfolding parseM3U_channels a(2) .
  moreover have "id' ?m = ''tv|'' @ k" by (rule id_merged)
  ultimately show "\<exists>x \<in> set (channels (fst (parseM3U doc t))). id' x = ''tv|'' @ k"
    by (rule bexI [rotated])
  show "\<forall>x \<in> set (channels (fst (parseM3U doc t))). id' x = ''tv|'' @ k \<longrightarrow> x = ?m"
  proof (intro ballI impI)
    fix x assume x: "x \<in> set (channels (fst (parseM3U doc t)))" and i: "id' x = ''tv|'' @ k"
    from x obtain b where b: "b \<in> set (stremio_channels ?t)" "x = heap ?t ! b"
      unfolding parseM3U_channels by auto
    show "x = ?m" using docInv_at [OF inv b(1)] i b(2) by simp
  qed
qed

lemma parseM3U_one_object:
  assumes e: "e \<in> set (entries doc)" and k: "k = channelIdOf (remappingRules t) e"
  shows "\<exists>a. set (filter (\<lambda>a. id' (heap (snd (parseM3U doc t)) ! a) = ''tv|'' @ k)
                    (stremio_channels (snd (parseM3U doc t)))) = {a}
             \<and> heap (snd (parseM3U doc t)) ! a
                 = merged k (filter (\<lambda>x. channelIdOf (remappingRules t) x = k) (entries doc))"
proof -
  let ?t = "snd (parseM3U doc t)"
  let ?m = "merged k (filter (\<lambda>x. channelIdOf (remappingRules t) x = k) (entries doc))"
  have inv: "docInv (remappingRules t) (entries doc) ?t" by (rule parseM3U_docInv)
  from docInv_entry [OF inv e] obtain a where a: "a \<in> set (stremio_channels ?t)" "heap ?t ! a = ?m"
    unfolding k by blast
  have ia: "id' (heap ?t ! a) = ''tv|'' @ k" unfolding a(2) by (rule id_merged)
  have only: "b = a" if b: "b \<in> set (stremio_channels ?t)" "id' (heap ?t ! b) = ''tv|'' @ k" for b
  proof -
    have "heap ?t ! b = heap ?t ! a" using docInv_at [OF inv b] a(2) by simp
    then show ?thesis using docInv_inj [OF inv b(1) a(1)] by simp
  qed
  have "set (filter (\<lambda>a. id' (heap ?t ! a) = ''tv|'' @ k) (stremio_channels ?t)) = {a}"
  proof (intro equalityI subsetI)
    fix b assume "b \<in> set (filter (\<lambda>a. id' (heap ?t ! a) = ''tv|'' @ k) (stremio_channels ?t))"
    then have "b = a" using only [of b] by simp
    then show "b \<in> {a}" by simp
  next
    fix b assume "b \<in> {a}"
    then show "b \<in> set (filter (\<lambda>a. id' (heap ?t ! a) = ''tv|'' @ k) (stremio_channels ?t))"
      using a(1) ia by simp
  qed
  then show ?thesis using a(2) by (intro exI [of _ a] conjI)
qed

text \<open>
  C1. No two channels of a produced list share an identity, in the list \<^verbatim>\<open>parseM3U\<close> returns
  as in the list \<^verbatim>\<open>loadAndTransform\<close> returns. The source pushes a new channel in
  \<^verbatim>\<open>transformChannelToStremio\<close> and once more in \<^verbatim>\<open>parseM3U\<close>, so the list of one document
  holds every channel at two places: for a document of one entry, the same address twice
  and the identity \<^verbatim>\<open>tv|a\<close> twice. (The list of a run is free of duplicates, lemma
  \<open>loadAndTransform_distinct\<close> below.)
\<close>

theorem parseM3U_lists_channel_twice:
  "map id' (channels (fst (parseM3U ''#EXTINF:-1,A\<newline>http://a'' newTransformer))) = [''tv|a'', ''tv|a'']
   \<and> stremio_channels (snd (parseM3U ''#EXTINF:-1,A\<newline>http://a'' newTransformer)) = [0, 0]"
  by code_simp

text \<open>
  C5. When the rules map the lower-cased explicit identity of an entry to a canonical
  value, the resolver gives the entry that value, lower-cased, as its identity, and the
  channels of the document hold a channel with it (\<^verbatim>\<open>tv|\<close> before it in \<^verbatim>\<open>id\<close>, plain in
  \<^verbatim>\<open>streamInfo.tvg.id\<close>) that carries the stream of the entry: with the rule \<^verbatim>\<open>chfoo=chbar\<close>
  and the attribute \<^verbatim>\<open>chfoo\<close>, the channel \<^verbatim>\<open>tv|chbar\<close>.
\<close>

theorem remap_applied:
  assumes e: "e \<in> set (entries doc)" and i: "map_of (ch_tvg e) ''id'' = Some i" "i \<noteq> []"
    and r: "map_of (remappingRules t) (toLowerCase i) = Some canonical"
  shows "channelIdOf (remappingRules t) e = toLowerCase canonical
       \<and> (\<exists>c \<in> set (channels (fst (parseM3U doc t))).
              id' c = ''tv|'' @ toLowerCase canonical
            \<and> map_of (tvg (streamInfo c)) ''id'' = Some (toLowerCase canonical)
            \<and> \<lparr>s_url = ch_url e, s_name = ch_name e\<rparr> \<in> set (urls (streamInfo c)))"
proof
  let ?t = "snd (parseM3U doc t)"
  let ?k = "channelIdOf (remappingRules t) e"
  show k: "?k = toLowerCase canonical"
    using i r by (simp add: channelIdOf_def orElse_def Let_def)
  let ?m = "merged ?k (filter (\<lambda>x. channelIdOf (remappingRules t) x = ?k) (entries doc))"
  have inv: "docInv (remappingRules t) (entries doc) ?t" by (rule parseM3U_docInv)
  from docInv_entry [OF inv e] obtain a where a: "a \<in> set (stremio_channels ?t)" "heap ?t ! a = ?m"
    by blast
  have "heap ?t ! a \<in> set (map (\<lambda>a. heap ?t ! a) (stremio_channels ?t))"
    using a(1) by simp
  then have m: "?m \<in> set (channels (fst (parseM3U doc t)))"
    unfolding parseM3U_channels a(2) .
  have "streamOf e \<in> set (urls (streamInfo ?m))" using e by (simp add: urls_merged)
  then have "id' ?m = ''tv|'' @ toLowerCase canonical
            \<and> map_of (tvg (streamInfo ?m)) ''id'' = Some (toLowerCase canonical)
            \<and> \<lparr>s_url = ch_url e, s_name = ch_name e\<rparr> \<in> set (urls (streamInfo ?m))"
    using id_merged [of ?k] tvgId_merged [of ?k] unfolding k tvgId_def streamOf_def by simp
  with m show "\<exists>c \<in> set (channels (fst (parseM3U doc t))).
              id' c = ''tv|'' @ toLowerCase canonical
            \<and> map_of (tvg (streamInfo c)) ''id'' = Some (toLowerCase canonical)
            \<and> \<lparr>s_url = ch_url e, s_name = ch_name e\<rparr> \<in> set (urls (streamInfo c))"
    by (rule bexI [rotated])
qed

theorem remap_applied_witness:
  "\<lparr>ch_name = ''Foo'', ch_group = ''Altri canali'', ch_tvg = [(''id'', ''ChFoo'')],
      ch_headers = [], ch_url = ''http://s/1''\<rparr>
     \<in> set (entries ''#EXTINF:-1 tvg-id=\"ChFoo\",Foo\<newline>http://s/1'')
   \<and> map_of (remappingRules (fst (loadRemappingRules (Some ''chfoo=chbar'') newTransformer)))
        (toLowerCase ''ChFoo'') = Some ''chbar''
   \<and> (\<exists>c \<in> set (channels (fst (parseM3U ''#EXTINF:-1 tvg-id=\"ChFoo\",Foo\<newline>http://s/1''
                     (fst (loadRemappingRules (Some ''chfoo=chbar'') newTransformer))))).
          id' c = ''tv|chbar'' \<and> map_of (tvg (streamInfo c)) ''id'' = Some ''chbar''
        \<and> \<lparr>s_url = ''http://s/1'', s_name = ''Foo''\<rparr> \<in> set (urls (streamInfo c)))"
proof -
  let ?e = "\<lparr>ch_name = ''Foo'', ch_group = ''Altri canali'', ch_tvg = [(''id'', ''ChFoo'')],
      ch_headers = [], ch_url = ''http://s/1''\<rparr>"
  let ?t = "fst (loadRemappingRules (Some ''chfoo=chbar'') newTransformer)"
  have h1: "?e \<in> set (entries ''#EXTINF:-1 tvg-id=\"ChFoo\",Foo\<newline>http://s/1'')" by code_simp
  have h2: "map_of (ch_tvg ?e) ''id'' = Some ''ChFoo''" by simp
  have h3: "''ChFoo'' \<noteq> []" by simp
  have h4: "map_of (remappingRules ?t) (toLowerCase ''ChFoo'') = Some ''chbar''" by code_simp
  have l: "toLowerCase ''chbar'' = ''chbar''" by code_simp
  show ?thesis
    using h1 h4 remap_applied [OF h1 h2 h3 h4] unfolding l by simp
qed

section \<open>The channels of a run\<close>

lemma addChannel_distinct: "distinct (map id' acc) \<Longrightarrow> distinct (map id' (addChannel acc c))"
  by (auto simp: addChannel_def list_ex_iff)

lemma foldl_addChannel_distinct:
  "distinct (map id' acc) \<Longrightarrow> distinct (map id' (foldl addChannel acc cs))"
  by (induction cs arbitrary: acc) (simp_all add: addChannel_distinct)

lemma foldl_addChannel_prefix: "\<exists>new. foldl addChannel acc cs = acc @ new"
proof (induction cs arbitrary: acc)
  case Nil
  then show ?case by simp
next
  case (Cons c cs)
  obtain new where n: "foldl addChannel (addChannel acc c) cs = addChannel acc c @ new"
    using Cons.IH by blast
  have "addChannel acc c = acc \<or> addChannel acc c = acc @ [c]" by (simp add: addChannel_def)
  then show ?case
  proof
    assume "addChannel acc c = acc"
    then show ?thesis using n by simp
  next
    assume "addChannel acc c = acc @ [c]"
    then have "foldl addChannel acc (c # cs) = acc @ (c # new)" using n by simp
    then show ?thesis by blast
  qed
qed

lemma find_append: "find P (xs @ ys) = (case find P xs of Some x \<Rightarrow> Some x | None \<Rightarrow> find P ys)"
  by (induction xs) auto

lemma find_foldl_addChannel:
  "find (\<lambda>x. id' x = k) (foldl addChannel acc cs) = find (\<lambda>x. id' x = k) (acc @ cs)"
proof (induction cs arbitrary: acc)
  case Nil
  then show ?case by simp
next
  case (Cons c cs)
  have "find (\<lambda>x. id' x = k) (addChannel acc c @ cs) = find (\<lambda>x. id' x = k) (acc @ c # cs)"
  proof (cases "list_ex (\<lambda>e. id' e = id' c) acc")
    case False
    then show ?thesis by (simp add: addChannel_def)
  next
    case True
    show ?thesis
    proof (cases "id' c = k")
      case False
      then show ?thesis using True by (simp add: addChannel_def find_append split: option.splits)
    next
      case kc: True
      from True obtain e where "e \<in> set acc" "id' e = k" using kc by (auto simp: list_ex_iff)
      then have "find (\<lambda>x. id' x = k) acc \<noteq> None" by (auto simp: find_None_iff)
      then show ?thesis using True by (auto simp: addChannel_def find_append)
    qed
  qed
  then show ?case using Cons.IH [of "addChannel acc c"] by simp
qed

lemma distinct_filter_single:
  "distinct (map f xs) \<Longrightarrow> c \<in> set xs \<Longrightarrow> filter (\<lambda>x. f x = f c) xs = [c]"
proof (induction xs)
  case Nil
  then show ?case by simp
next
  case (Cons x xs)
  show ?case
  proof (cases "x = c")
    case True
    have "f c \<notin> f ` set xs" using Cons.prems(1) True by simp
    then have "\<forall>y \<in> set xs. f y \<noteq> f c" by (metis image_eqI)
    then have "filter (\<lambda>y. f y = f c) xs = []" by (simp add: filter_empty_conv)
    then show ?thesis using True by simp
  next
    case False
    then have "c \<in> set xs" using Cons.prems(2) by simp
    then have "f x \<noteq> f c" using Cons.prems(1) by auto
    then show ?thesis using Cons \<open>c \<in> set xs\<close> by simp
  qed
qed

lemma playlistLoop_rules: "remappingRules (snd (playlistLoop docs acc t)) = remappingRules t"
proof (induction docs arbitrary: acc t)
  case Nil
  then show ?case by simp
next
  case (Cons d docs)
  obtain cs gs es where acc: "acc = (cs, gs, es)" by (cases acc)
  obtain r t' where p: "parseM3U d t = (r, t')" by (cases "parseM3U d t")
  have "remappingRules t' = remappingRules t" using parseM3U_rules [of d t] p by simp
  then show ?case using acc p Cons.IH by simp
qed

lemma playlistLoop_append:
  "playlistLoop (xs @ ys) acc t = playlistLoop ys (fst (playlistLoop xs acc t)) (snd (playlistLoop xs acc t))"
proof (induction xs arbitrary: acc t)
  case Nil
  then show ?case by simp
next
  case (Cons d docs)
  obtain cs gs es where acc: "acc = (cs, gs, es)" by (cases acc)
  obtain r t' where p: "parseM3U d t = (r, t')" by (cases "parseM3U d t")
  show ?case using acc p Cons.IH by simp
qed

lemma playlistLoop_distinct:
  "distinct (map id' cs) \<Longrightarrow> distinct (map id' (fst (fst (playlistLoop docs (cs, gs, es) t))))"
proof (induction docs arbitrary: cs gs es t)
  case Nil
  then show ?case by simp
next
  case (Cons d docs)
  obtain r t' where p: "parseM3U d t = (r, t')" by (cases "parseM3U d t")
  show ?case using p Cons.prems by (simp add: Cons.IH foldl_addChannel_distinct)
qed

lemma playlistLoop_prefix:
  "\<exists>new. fst (fst (playlistLoop docs (cs, gs, es) t)) = cs @ new"
proof (induction docs arbitrary: cs gs es t)
  case Nil
  then show ?case by simp
next
  case (Cons d docs)
  obtain r t' where p: "parseM3U d t = (r, t')" by (cases "parseM3U d t")
  obtain n1 where n1: "foldl addChannel cs (channels r) = cs @ n1"
    using foldl_addChannel_prefix by blast
  obtain n2 where "fst (fst (playlistLoop docs (foldl addChannel cs (channels r), foldl setAdd gs (genres r),
        addEpgUrl es (epgUrl r)) t')) = foldl addChannel cs (channels r) @ n2"
    using Cons.IH by blast
  then show ?case using p n1 by simp
qed

lemma loadAndTransform_channels:
  "channels (fst (loadAndTransform remap docs t))
     = fst (fst (playlistLoop docs ([], [], []) (fst (loadRemappingRules remap t))))"
  by (simp add: loadAndTransform_def split: prod.splits)

lemma loadAndTransform_distinct: "distinct (map id' (channels (fst (loadAndTransform remap docs t))))"
  unfolding loadAndTransform_channels by (rule playlistLoop_distinct) simp

lemma catalog_channel:
  assumes e: "e \<in> set (entries doc)"
    and k: "k = channelIdOf (remappingRules (fst (loadRemappingRules remap t))) e"
    and pre: "list_all (\<lambda>c. id' c \<noteq> ''tv|'' @ k) (channels (fst (loadAndTransform remap earlier t)))"
  shows "filter (\<lambda>c. id' c = ''tv|'' @ k) (channels (fst (loadAndTransform remap (earlier @ doc # later) t)))
           = [merged k (filter (\<lambda>x. channelIdOf (remappingRules (fst (loadRemappingRules remap t))) x = k) (entries doc))]"
proof -
  let ?t1 = "fst (loadRemappingRules remap t)"
  let ?R = "remappingRules ?t1"
  let ?m = "merged k (filter (\<lambda>x. channelIdOf ?R x = k) (entries doc))"
  let ?p = "playlistLoop earlier ([], [], []) ?t1"
  obtain cs gs es where acc: "fst ?p = (cs, gs, es)" by (cases "fst ?p")
  have R2: "remappingRules (snd ?p) = ?R" by (rule playlistLoop_rules)
  have cs: "channels (fst (loadAndTransform remap earlier t)) = cs"
    unfolding loadAndTransform_channels acc by simp
  have dcs: "distinct (map id' cs)" using loadAndTransform_distinct [of remap earlier t] cs by simp
  have none: "find (\<lambda>x. id' x = ''tv|'' @ k) cs = None"
    using pre cs by (auto simp: find_None_iff list_all_iff)
  obtain r t3 where p: "parseM3U doc (snd ?p) = (r, t3)" by (cases "parseM3U doc (snd ?p)")
  have "find (\<lambda>x. id' x = ''tv|'' @ k) (channels r) = Some ?m"
    using parseM3U_find [OF e, of k "snd ?p"] k p R2 by simp
  then have f2: "find (\<lambda>x. id' x = ''tv|'' @ k) (foldl addChannel cs (channels r)) = Some ?m"
    using none by (simp add: find_foldl_addChannel find_append)
  then have m2: "?m \<in> set (foldl addChannel cs (channels r))"
    by (auto simp: find_Some_iff)
  obtain new where new: "fst (fst (playlistLoop later (foldl addChannel cs (channels r),
        foldl setAdd gs (genres r), addEpgUrl es (epgUrl r)) t3)) = foldl addChannel cs (channels r) @ new"
    using playlistLoop_prefix by blast
  have final: "channels (fst (loadAndTransform remap (earlier @ doc # later) t))
                 = foldl addChannel cs (channels r) @ new"
    unfolding loadAndTransform_channels playlistLoop_append using acc p new by simp
  have "distinct (map id' (foldl addChannel cs (channels r) @ new))"
    using loadAndTransform_distinct [of remap "earlier @ doc # later" t] final by simp
  from distinct_filter_single [OF this, of ?m] m2
  show ?thesis unfolding final by (simp add: id_merged)
qed

text \<open>
  C2, as amended. When several documents of a run hold entries of one final identity \<open>k\<close>,
  the catalog of the run holds exactly one channel \<^verbatim>\<open>tv|k\<close>, and it is the channel of the
  first document that produces the identity, built from the entries of that document
  alone: its display name, genre and artwork are those of the first such entry \<open>e1\<close>, and
  its streams are the streams of that document's entries of identity \<open>k\<close>, in their order.
  Whatever the later documents hold, an entry of theirs with the same identity adds
  nothing: its stream URL is not appended. The claim as stated has it appended:
  \<^verbatim>\<open>parseM3U\<close> starts every document with an empty channel list, and \<^verbatim>\<open>loadAndTransform\<close>
  drops a channel whose \<^verbatim>\<open>id\<close> it already holds.
\<close>

theorem first_document_owns_channel:
  assumes ents: "filter (\<lambda>e. channelIdOf (remappingRules (fst (loadRemappingRules remap t))) e = k)
                   (entries doc) = e1 # rest"
    and first: "list_all (\<lambda>c. id' c \<noteq> ''tv|'' @ k) (channels (fst (loadAndTransform remap earlier t)))"
  shows "\<exists>c. filter (\<lambda>c. id' c = ''tv|'' @ k)
               (channels (fst (loadAndTransform remap (earlier @ doc # later) t))) = [c]
           \<and> urls (streamInfo c)
               = \<lparr>s_url = ch_url e1, s_name = ch_name e1\<rparr>
                   # map (\<lambda>e. \<lparr>s_url = ch_url e, s_name = ch_name e\<rparr>) rest
           \<and> name c = orElse (map_of (ch_tvg e1) ''name'') (ch_name e1)
           \<and> genre c = [groupOf e1]
           \<and> logo c = map_of (ch_tvg e1) ''logo''
           \<and> poster c = map_of (ch_tvg e1) ''logo''
           \<and> background c = map_of (ch_tvg e1) ''logo''"
proof -
  let ?R = "remappingRules (fst (loadRemappingRules remap t))"
  have "e1 \<in> set (filter (\<lambda>e. channelIdOf ?R e = k) (entries doc))" unfolding ents by simp
  then have e1: "e1 \<in> set (entries doc)" and k: "k = channelIdOf ?R e1" by auto
  have c: "filter (\<lambda>c. id' c = ''tv|'' @ k)
             (channels (fst (loadAndTransform remap (earlier @ doc # later) t))) = [merged k (e1 # rest)]"
    using catalog_channel [OF e1 k first, of later] unfolding ents .
  have u: "urls (streamInfo (merged k (e1 # rest)))
             = \<lparr>s_url = ch_url e1, s_name = ch_name e1\<rparr>
                 # map (\<lambda>e. \<lparr>s_url = ch_url e, s_name = ch_name e\<rparr>) rest"
    by (simp add: urls_merged streamOf_def)
  show ?thesis
    using c u fields_merged [of k e1 rest] by (intro exI [of _ "merged k (e1 # rest)"]) simp
qed

theorem first_document_owns_channel_witness:
  "filter (\<lambda>e. channelIdOf (remappingRules (fst (loadRemappingRules None newTransformer))) e = ''a'')
     (entries ''#EXTINF:-1 tvg-logo=\"L1\" group-title=\"News\",A\<newline>http://a/1\<newline>#EXTINF:-1,B\<newline>http://b\<newline>#EXTINF:-1 tvg-logo=\"L1b\",a\<newline>http://a/1b'')
     = \<lparr>ch_name = ''A'', ch_group = ''News'', ch_tvg = [(''logo'', ''L1''), (''group-title'', ''News'')],
         ch_headers = [], ch_url = ''http://a/1''\<rparr>
       # [\<lparr>ch_name = ''a'', ch_group = ''Altri canali'', ch_tvg = [(''logo'', ''L1b'')],
           ch_headers = [], ch_url = ''http://a/1b''\<rparr>]
   \<and> list_all (\<lambda>c. id' c \<noteq> ''tv|'' @ ''a'')
        (channels (fst (loadAndTransform None [''#EXTINF:-1,Zed\<newline>http://z''] newTransformer)))
   \<and> (\<exists>c. filter (\<lambda>c. id' c = ''tv|a'')
              (channels (fst (loadAndTransform None
                 ([''#EXTINF:-1,Zed\<newline>http://z'']
                  @ ''#EXTINF:-1 tvg-logo=\"L1\" group-title=\"News\",A\<newline>http://a/1\<newline>#EXTINF:-1,B\<newline>http://b\<newline>#EXTINF:-1 tvg-logo=\"L1b\",a\<newline>http://a/1b''
                  # [''#EXTINF:-1 tvg-logo=\"L2\" group-title=\"Sport\",A\<newline>http://a/2'',
                     ''#EXTINF:-1 tvg-name=\"Third\",A\<newline>http://a/3'']) newTransformer))) = [c]
          \<and> urls (streamInfo c) = [\<lparr>s_url = ''http://a/1'', s_name = ''A''\<rparr>,
                                    \<lparr>s_url = ''http://a/1b'', s_name = ''a''\<rparr>]
          \<and> name c = ''A'' \<and> genre c = [''News'']
          \<and> logo c = Some ''L1'' \<and> poster c = Some ''L1'' \<and> background c = Some ''L1'')"
proof -
  let ?doc = "''#EXTINF:-1 tvg-logo=\"L1\" group-title=\"News\",A\<newline>http://a/1\<newline>#EXTINF:-1,B\<newline>http://b\<newline>#EXTINF:-1 tvg-logo=\"L1b\",a\<newline>http://a/1b''"
  let ?e1 = "\<lparr>ch_name = ''A'', ch_group = ''News'', ch_tvg = [(''logo'', ''L1''), (''group-title'', ''News'')],
         ch_headers = [], ch_url = ''http://a/1''\<rparr>"
  let ?e2 = "\<lparr>ch_name = ''a'', ch_group = ''Altri canali'', ch_tvg = [(''logo'', ''L1b'')],
           ch_headers = [], ch_url = ''http://a/1b''\<rparr>"
  have h1: "filter (\<lambda>e. channelIdOf (remappingRules (fst (loadRemappingRules None newTransformer))) e = ''a'')
     (entries ?doc) = ?e1 # [?e2]"
    by code_simp
  have h2: "list_all (\<lambda>c. id' c \<noteq> ''tv|'' @ ''a'')
        (channels (fst (loadAndTransform None [''#EXTINF:-1,Zed\<newline>http://z''] newTransformer)))"
    by code_simp
  note m = first_document_owns_channel [OF h1 h2,
      of "[''#EXTINF:-1 tvg-logo=\"L2\" group-title=\"Sport\",A\<newline>http://a/2'',
           ''#EXTINF:-1 tvg-name=\"Third\",A\<newline>http://a/3'']"]
  have c: "\<exists>c. filter (\<lambda>c. id' c = ''tv|a'')
              (channels (fst (loadAndTransform None
                 ([''#EXTINF:-1,Zed\<newline>http://z''] @ ?doc
                  # [''#EXTINF:-1 tvg-logo=\"L2\" group-title=\"Sport\",A\<newline>http://a/2'',
                     ''#EXTINF:-1 tvg-name=\"Third\",A\<newline>http://a/3'']) newTransformer))) = [c]
          \<and> urls (streamInfo c) = [\<lparr>s_url = ''http://a/1'', s_name = ''A''\<rparr>,
                                    \<lparr>s_url = ''http://a/1b'', s_name = ''a''\<rparr>]
          \<and> name c = ''A'' \<and> genre c = [''News'']
          \<and> logo c = Some ''L1'' \<and> poster c = Some ''L1'' \<and> background c = Some ''L1''"
    using m by (simp add: groupOf_def orElse_def)
  show ?thesis using h1 h2 c by (intro conjI)
qed

text \<open>
  The claim as stated fails on two documents with one entry each, both of identity \<^verbatim>\<open>a\<close>:
  the catalog holds the one channel of the first, and the URL of the second is in no stream.
\<close>

theorem later_stream_dropped:
  "map (\<lambda>c. (id' c, name c, genre c, logo c, map s_url (urls (streamInfo c))))
     (channels (fst (loadAndTransform None
        [''#EXTINF:-1 tvg-logo=\"L1\" group-title=\"News\",A\<newline>http://a/1'',
         ''#EXTINF:-1 tvg-logo=\"L2\" group-title=\"Sport\",A\<newline>http://a/2''] newTransformer)))
     = [(''tv|a'', ''A'', [''News''], Some ''L1'', [''http://a/1''])]"
  by code_simp

text \<open>
  C3. When exactly two entries \<open>e1\<close>, \<open>e2\<close> of a document, in this order, have the post-remap
  identity \<open>k\<close>, the document has exactly one channel of that identity: its channel list
  refers to one channel object \<^verbatim>\<open>tv|k\<close>, the second entry having created none, and that
  channel is \<^term>\<open>merged k [e1, e2]\<close>. Its streams are the stream of \<open>e1\<close>, then the stream of
  \<open>e2\<close>, and its display name, genre and artwork are those of \<open>e1\<close>. In the catalog of a
  run the channels of that identity are this one channel and no other, when no earlier
  document of the run has produced the identity (C2 tells what happens when one has).
\<close>

theorem merge_within_document:
  assumes two: "filter (\<lambda>e. channelIdOf (remappingRules (fst (loadRemappingRules remap t))) e = k)
                  (entries doc) = [e1, e2]"
  shows "(\<exists>a. set (filter (\<lambda>x. id' (heap (snd (parseM3U doc (fst (loadRemappingRules remap t)))) ! x) = ''tv|'' @ k)
                     (stremio_channels (snd (parseM3U doc (fst (loadRemappingRules remap t)))))) = {a}
            \<and> heap (snd (parseM3U doc (fst (loadRemappingRules remap t)))) ! a = merged k [e1, e2])
       \<and> (list_all (\<lambda>c. id' c \<noteq> ''tv|'' @ k) (channels (fst (loadAndTransform remap earlier t)))
            \<longrightarrow> filter (\<lambda>c. id' c = ''tv|'' @ k)
                  (channels (fst (loadAndTransform remap (earlier @ doc # later) t))) = [merged k [e1, e2]])
       \<and> urls (streamInfo (merged k [e1, e2])) = [\<lparr>s_url = ch_url e1, s_name = ch_name e1\<rparr>,
                                                   \<lparr>s_url = ch_url e2, s_name = ch_name e2\<rparr>]
       \<and> name (merged k [e1, e2]) = orElse (map_of (ch_tvg e1) ''name'') (ch_name e1)
       \<and> genre (merged k [e1, e2]) = [groupOf e1]
       \<and> logo (merged k [e1, e2]) = map_of (ch_tvg e1) ''logo''
       \<and> poster (merged k [e1, e2]) = map_of (ch_tvg e1) ''logo''
       \<and> background (merged k [e1, e2]) = map_of (ch_tvg e1) ''logo''"
proof -
  let ?R = "remappingRules (fst (loadRemappingRules remap t))"
  have "e1 \<in> set (filter (\<lambda>e. channelIdOf ?R e = k) (entries doc))" unfolding two by simp
  then have e1: "e1 \<in> set (entries doc)" and k: "k = channelIdOf ?R e1" by auto
  have one: "\<exists>a. set (filter (\<lambda>x. id' (heap (snd (parseM3U doc (fst (loadRemappingRules remap t)))) ! x) = ''tv|'' @ k)
                     (stremio_channels (snd (parseM3U doc (fst (loadRemappingRules remap t)))))) = {a}
            \<and> heap (snd (parseM3U doc (fst (loadRemappingRules remap t)))) ! a = merged k [e1, e2]"
    using parseM3U_one_object [OF e1 k] unfolding two .
  have run: "list_all (\<lambda>c. id' c \<noteq> ''tv|'' @ k) (channels (fst (loadAndTransform remap earlier t)))
            \<longrightarrow> filter (\<lambda>c. id' c = ''tv|'' @ k)
                  (channels (fst (loadAndTransform remap (earlier @ doc # later) t))) = [merged k [e1, e2]]"
  proof
    assume "list_all (\<lambda>c. id' c \<noteq> ''tv|'' @ k) (channels (fst (loadAndTransform remap earlier t)))"
    from catalog_channel [OF e1 k this, of later]
    show "filter (\<lambda>c. id' c = ''tv|'' @ k)
            (channels (fst (loadAndTransform remap (earlier @ doc # later) t))) = [merged k [e1, e2]]"
      unfolding two .
  qed
  have u: "urls (streamInfo (merged k [e1, e2])) = [\<lparr>s_url = ch_url e1, s_name = ch_name e1\<rparr>,
                                                   \<lparr>s_url = ch_url e2, s_name = ch_name e2\<rparr>]"
    by (simp add: urls_merged streamOf_def)
  show ?thesis
    using one run u fields_merged [of k e1 "[e2]"] by (intro conjI) simp_all
qed

theorem merge_within_document_witness:
  "filter (\<lambda>e. channelIdOf (remappingRules (fst (loadRemappingRules (Some ''chfoo=chbar'') newTransformer))) e = ''chbar'')
     (entries ''#EXTINF:-1 tvg-id=\"ChFoo\" tvg-logo=\"L1\" group-title=\"News\",Foo\<newline>http://s/1\<newline>#EXTINF:-1,Other\<newline>http://s/o\<newline>#EXTINF:-1 tvg-logo=\"L2\",chbar\<newline>http://s/2'')
     = [\<lparr>ch_name = ''Foo'', ch_group = ''News'',
         ch_tvg = [(''id'', ''ChFoo''), (''logo'', ''L1''), (''group-title'', ''News'')],
         ch_headers = [], ch_url = ''http://s/1''\<rparr>,
        \<lparr>ch_name = ''chbar'', ch_group = ''Altri canali'', ch_tvg = [(''logo'', ''L2'')],
         ch_headers = [], ch_url = ''http://s/2''\<rparr>]
   \<and> list_all (\<lambda>c. id' c \<noteq> ''tv|'' @ ''chbar'')
        (channels (fst (loadAndTransform (Some ''chfoo=chbar'') [''#EXTINF:-1,Zed\<newline>http://z''] newTransformer)))
   \<and> (\<exists>c. filter (\<lambda>c. id' c = ''tv|chbar'')
              (channels (fst (loadAndTransform (Some ''chfoo=chbar'')
                 ([''#EXTINF:-1,Zed\<newline>http://z'']
                  @ ''#EXTINF:-1 tvg-id=\"ChFoo\" tvg-logo=\"L1\" group-title=\"News\",Foo\<newline>http://s/1\<newline>#EXTINF:-1,Other\<newline>http://s/o\<newline>#EXTINF:-1 tvg-logo=\"L2\",chbar\<newline>http://s/2''
                  # [''#EXTINF:-1,chbar\<newline>http://s/3'']) newTransformer))) = [c]
          \<and> urls (streamInfo c) = [\<lparr>s_url = ''http://s/1'', s_name = ''Foo''\<rparr>,
                                    \<lparr>s_url = ''http://s/2'', s_name = ''chbar''\<rparr>]
          \<and> name c = ''Foo'' \<and> genre c = [''News'']
          \<and> logo c = Some ''L1'' \<and> poster c = Some ''L1'' \<and> background c = Some ''L1'')
   \<and> (\<exists>a. set (filter (\<lambda>x. id' (heap (snd (parseM3U
                ''#EXTINF:-1 tvg-id=\"ChFoo\" tvg-logo=\"L1\" group-title=\"News\",Foo\<newline>http://s/1\<newline>#EXTINF:-1,Other\<newline>http://s/o\<newline>#EXTINF:-1 tvg-logo=\"L2\",chbar\<newline>http://s/2''
                (fst (loadRemappingRules (Some ''chfoo=chbar'') newTransformer)))) ! x) = ''tv|chbar'')
          (stremio_channels (snd (parseM3U
                ''#EXTINF:-1 tvg-id=\"ChFoo\" tvg-logo=\"L1\" group-title=\"News\",Foo\<newline>http://s/1\<newline>#EXTINF:-1,Other\<newline>http://s/o\<newline>#EXTINF:-1 tvg-logo=\"L2\",chbar\<newline>http://s/2''
                (fst (loadRemappingRules (Some ''chfoo=chbar'') newTransformer)))))) = {a})"
proof -
  let ?doc = "''#EXTINF:-1 tvg-id=\"ChFoo\" tvg-logo=\"L1\" group-title=\"News\",Foo\<newline>http://s/1\<newline>#EXTINF:-1,Other\<newline>http://s/o\<newline>#EXTINF:-1 tvg-logo=\"L2\",chbar\<newline>http://s/2''"
  let ?e1 = "\<lparr>ch_name = ''Foo'', ch_group = ''News'',
         ch_tvg = [(''id'', ''ChFoo''), (''logo'', ''L1''), (''group-title'', ''News'')],
         ch_headers = [], ch_url = ''http://s/1''\<rparr>"
  let ?e2 = "\<lparr>ch_name = ''chbar'', ch_group = ''Altri canali'', ch_tvg = [(''logo'', ''L2'')],
         ch_headers = [], ch_url = ''http://s/2''\<rparr>"
  have h1: "filter (\<lambda>e. channelIdOf (remappingRules (fst (loadRemappingRules (Some ''chfoo=chbar'') newTransformer))) e = ''chbar'')
     (entries ?doc) = [?e1, ?e2]"
    by code_simp
  have h2: "list_all (\<lambda>c. id' c \<noteq> ''tv|'' @ ''chbar'')
        (channels (fst (loadAndTransform (Some ''chfoo=chbar'') [''#EXTINF:-1,Zed\<newline>http://z''] newTransformer)))"
    by code_simp
  note m = merge_within_document [OF h1, of "[''#EXTINF:-1,Zed\<newline>http://z'']" "[''#EXTINF:-1,chbar\<newline>http://s/3'']"]
  have c: "\<exists>c. filter (\<lambda>c. id' c = ''tv|chbar'')
              (channels (fst (loadAndTransform (Some ''chfoo=chbar'')
                 ([''#EXTINF:-1,Zed\<newline>http://z''] @ ?doc # [''#EXTINF:-1,chbar\<newline>http://s/3'']) newTransformer))) = [c]
          \<and> urls (streamInfo c) = [\<lparr>s_url = ''http://s/1'', s_name = ''Foo''\<rparr>,
                                    \<lparr>s_url = ''http://s/2'', s_name = ''chbar''\<rparr>]
          \<and> name c = ''Foo'' \<and> genre c = [''News'']
          \<and> logo c = Some ''L1'' \<and> poster c = Some ''L1'' \<and> background c = Some ''L1''"
    using m h2 by (intro exI [of _ "merged ''chbar'' [?e1, ?e2]"]) (simp add: groupOf_def orElse_def)
  have a: "\<exists>a. set (filter (\<lambda>x. id' (heap (snd (parseM3U ?doc
                (fst (loadRemappingRules (Some ''chfoo=chbar'') newTransformer)))) ! x) = ''tv|chbar'')
          (stremio_channels (snd (parseM3U ?doc
                (fst (loadRemappingRules (Some ''chfoo=chbar'') newTransformer)))))) = {a}"
    using m by auto
  show ?thesis using h1 h2 c a by (intro conjI)
qed

section \<open>Attributes of a metadata line\<close>

text \<open>
  C4. Every \<^verbatim>\<open>name="value"\<close> pair of a metadata line binds the name, less its \<^verbatim>\<open>tvg-\<close>
  prefix, to exactly the quoted value. The source splits the matched text at every \<^verbatim>\<open>=\<close>
  and keeps two pieces, so a value is cut at its first \<^verbatim>\<open>=\<close>: the logo
  \<^verbatim>\<open>http://l/a.png?x=1\<close> is stored as \<^verbatim>\<open>http://l/a.png?x\<close> and the group \<^verbatim>\<open>A=B\<close> as \<^verbatim>\<open>A\<close>,
  while the group of the entry, read from the capture group of its own expression on the
  same line, is \<^verbatim>\<open>A=B\<close>.
\<close>

theorem parseExtinf_cuts_value_at_equals:
  "ch_tvg (parseExtinf ''#EXTINF:-1 group-title=\"A=B\" tvg-logo=\"http://l/a.png?x=1\",Foo'' [])
     = [(''group-title'', ''A''), (''logo'', ''http://l/a.png?x'')]
   \<and> ch_group (parseExtinf ''#EXTINF:-1 group-title=\"A=B\" tvg-logo=\"http://l/a.png?x=1\",Foo'' []) = ''A=B''"
  by code_simp

section \<open>Rules across runs\<close>

text \<open>
  C10. The rules of a run are exactly those of the remapping file as it is at the start of
  that run. The source creates the \<^verbatim>\<open>Map\<close> in the constructor and \<^verbatim>\<open>loadRemappingRules\<close>
  only ever adds to it: after a run with the file \<^verbatim>\<open>chfoo=chbar\<close>, a second run of the same
  transformer with an empty file still holds the rule and still renames the channel, which
  a new transformer does not.
\<close>

theorem rules_survive_next_run:
  "remappingRules (fst (loadRemappingRules (Some [])
      (snd (loadAndTransform (Some ''chfoo=chbar'') [] newTransformer)))) = [(''chfoo'', ''chbar'')]
   \<and> map id' (channels (fst (loadAndTransform (Some []) [''#EXTINF:-1,chfoo\<newline>http://a'']
      (snd (loadAndTransform (Some ''chfoo=chbar'') [] newTransformer))))) = [''tv|chbar'']
   \<and> map id' (channels (fst (loadAndTransform (Some []) [''#EXTINF:-1,chfoo\<newline>http://a'']
      newTransformer))) = [''tv|chfoo'']"
  by code_simp

end
